theory Spec2Isabelle
  imports Main
begin

section \<open>Data model of \<open>scales/tictactoe.py\<close>\<close>

text \<open>
  \<^verbatim>\<open>class GameState(enum.IntEnum): empty = 0; player = -1; ai = +1\<close>

  The enumeration is a datatype. Its members are integers in Python, and the search
  negates them (\<^verbatim>\<open>-player\<close>); \<open>state_value\<close> gives the integer of a member and
  \<open>negate\<close> is the member whose integer is the negated one.
\<close>

datatype GameState = gs_empty | gs_player | gs_ai

fun state_value :: "GameState \<Rightarrow> int" where
  "state_value gs_empty = 0"
| "state_value gs_player = -1"
| "state_value gs_ai = 1"

fun negate :: "GameState \<Rightarrow> GameState" where
  "negate gs_empty = gs_empty"
| "negate gs_player = gs_ai"
| "negate gs_ai = gs_player"

text \<open>
  A board is a Python list of rows, each row a list of cells. The rows are separate list
  objects (they come from \<^verbatim>\<open>copy.deepcopy(BoardTemplate)\<close>), so a write to one row
  changes no other row.
\<close>

type_synonym board = "GameState list list"

definition BoardTemplate :: board where
  "BoardTemplate = [[gs_empty, gs_empty, gs_empty], [gs_empty, gs_empty, gs_empty],
                    [gs_empty, gs_empty, gs_empty]]"

text \<open>
  Scores are the integers \<open>-1, 0, +1\<close> of \<^verbatim>\<open>evaluate\<close> and the floats
  \<^verbatim>\<open>-math.inf\<close>, \<^verbatim>\<open>+math.inf\<close> with which the search starts.
\<close>

datatype score = NegInf | Fin int | PosInf

fun score_less :: "score \<Rightarrow> score \<Rightarrow> bool" where
  "score_less NegInf NegInf = False"
| "score_less NegInf _ = True"
| "score_less (Fin a) (Fin b) = (a < b)"
| "score_less (Fin a) PosInf = True"
| "score_less (Fin a) NegInf = False"
| "score_less PosInf _ = False"

definition score_greater :: "score \<Rightarrow> score \<Rightarrow> bool" where
  "score_greater a b = score_less b a"

text \<open>The list \<^verbatim>\<open>[x, y, score]\<close> that the search returns.\<close>

type_synonym result = "int \<times> int \<times> score"

subsection \<open>Python list access\<close>

datatype error = IndexError

definition ebind :: "error + 'a \<Rightarrow> ('a \<Rightarrow> error + 'b) \<Rightarrow> error + 'b" where
  "ebind m f = (case m of Inl e \<Rightarrow> Inl e | Inr v \<Rightarrow> f v)"

fun emap :: "('a \<Rightarrow> error + 'b) \<Rightarrow> 'a list \<Rightarrow> error + 'b list" where
  "emap f [] = Inr []"
| "emap f (x # xs) = ebind (f x) (\<lambda>y. ebind (emap f xs) (\<lambda>ys. Inr (y # ys)))"

text \<open>
  The position that a Python index denotes in a list of \<open>n\<close> elements: an index from
  \<open>-n\<close> to \<open>-1\<close> counts from the end; outside \<open>-n \<dots> n - 1\<close> there is none.
\<close>

definition py_index :: "nat \<Rightarrow> int \<Rightarrow> nat option" where
  "py_index n i =
     (if 0 \<le> i \<and> i < int n then Some (nat i)
      else if - int n \<le> i \<and> i < 0 then Some (nat (int n + i))
      else None)"

text \<open>\<^verbatim>\<open>xs[i]\<close> and \<^verbatim>\<open>xs[i] = v\<close>; both raise outside the range.\<close>

definition getitem :: "'a list \<Rightarrow> int \<Rightarrow> error + 'a" where
  "getitem xs i = (case py_index (length xs) i of None \<Rightarrow> Inl IndexError | Some k \<Rightarrow> Inr (xs ! k))"

definition setitem :: "'a list \<Rightarrow> int \<Rightarrow> 'a \<Rightarrow> error + 'a list" where
  "setitem xs i v =
     (case py_index (length xs) i of None \<Rightarrow> Inl IndexError | Some k \<Rightarrow> Inr (xs[k := v]))"

text \<open>\<^verbatim>\<open>board[i][x]\<close> and \<^verbatim>\<open>board[i][x] = v\<close>\<close>

definition get_cell :: "board \<Rightarrow> int \<Rightarrow> int \<Rightarrow> error + GameState" where
  "get_cell board i x = ebind (getitem board i) (\<lambda>row. getitem row x)"

definition set_cell :: "board \<Rightarrow> int \<Rightarrow> int \<Rightarrow> GameState \<Rightarrow> error + board" where
  "set_cell board i x v =
     ebind (getitem board i) (\<lambda>row.
     ebind (setitem row x v) (\<lambda>row'. setitem board i row'))"

section \<open>The functions of the game\<close>

subsection \<open>\<^verbatim>\<open>determine_win_state\<close>\<close>

text \<open>The coordinates read for the eight entries of \<^verbatim>\<open>win_states\<close>, in source order.\<close>

definition win_lines :: "(int \<times> int) list list" where
  "win_lines =
     [[(0, 0), (0, 1), (0, 2)],
      [(1, 0), (1, 1), (1, 2)],
      [(2, 0), (2, 1), (2, 2)],
      [(0, 0), (1, 0), (2, 0)],
      [(0, 1), (1, 1), (2, 1)],
      [(0, 2), (1, 2), (2, 2)],
      [(0, 0), (1, 1), (2, 2)],
      [(2, 0), (1, 1), (0, 2)]]"

definition determine_win_state :: "board \<Rightarrow> GameState \<Rightarrow> error + bool" where
  "determine_win_state board player =
     ebind (emap (emap (\<lambda>(i, x). get_cell board i x)) win_lines) (\<lambda>win_states.
     Inr ([player, player, player] \<in> set win_states))"

subsection \<open>\<^verbatim>\<open>determine_possible_positions\<close>\<close>

text \<open>
  \<^verbatim>\<open>[i, x] for x in range(3) if board[i][x] == GameState.empty\<close>, for one \<open>i\<close>
\<close>

definition row_positions :: "board \<Rightarrow> int \<Rightarrow> error + (int \<times> int) list" where
  "row_positions board i =
     ebind (emap (\<lambda>x. ebind (get_cell board i x) (\<lambda>c. Inr (x, c))) [0, 1, 2]) (\<lambda>cs.
     Inr (map (\<lambda>(x, c). (i, x)) (filter (\<lambda>(x, c). c = gs_empty) cs)))"

definition determine_possible_positions :: "board \<Rightarrow> error + (int \<times> int) list" where
  "determine_possible_positions board =
     ebind (emap (row_positions board) [0, 1, 2]) (\<lambda>rows. Inr (concat rows))"

subsection \<open>\<^verbatim>\<open>evaluate\<close>\<close>

definition evaluate :: "board \<Rightarrow> error + int" where
  "evaluate board =
     ebind (determine_win_state board gs_ai) (\<lambda>w.
     if w then Inr 1
     else ebind (determine_win_state board gs_player) (\<lambda>w'.
          if w' then Inr (-1) else Inr 0))"

subsection \<open>\<^verbatim>\<open>min_max\<close>\<close>

text \<open>
  The search writes into \<^verbatim>\<open>test_board\<close>, so the model returns the board with the
  result. It recurses on \<^verbatim>\<open>depth - 1\<close> and stops only at \<^verbatim>\<open>depth == 0\<close>, at a won
  board or at a board without an empty cell, so for some arguments the recursion has no
  end (a negative depth with \<^verbatim>\<open>GameState.empty\<close> as the player; Python stops it with
  \<^verbatim>\<open>RecursionError\<close>). The first argument bounds the number of nested calls;
  \<open>None\<close> says that the bound was not enough.

  \<open>min_max_loop\<close> is the \<^verbatim>\<open>for cell in ...\<close> loop; its first argument is the
  recursive call \<^verbatim>\<open>min_max(test_board, depth - 1, -player)\<close> as a function of the
  board.
\<close>

fun min_max_loop ::
  "(board \<Rightarrow> (error + board \<times> result) option) \<Rightarrow> GameState \<Rightarrow> (int \<times> int) list \<Rightarrow>
   board \<Rightarrow> result \<Rightarrow> (error + board \<times> result) option" where
  "min_max_loop rec player [] test_board best = Some (Inr (test_board, best))"
| "min_max_loop rec player ((x, y) # cells) test_board best =
     (case set_cell test_board x y player of
        Inl e \<Rightarrow> Some (Inl e)
      | Inr board1 \<Rightarrow>
         (case rec board1 of
            None \<Rightarrow> None
          | Some (Inl e) \<Rightarrow> Some (Inl e)
          | Some (Inr (board2, score)) \<Rightarrow>
             (case set_cell board2 x y gs_empty of
                Inl e \<Rightarrow> Some (Inl e)
              | Inr board3 \<Rightarrow>
                 (let score' = (x, y, snd (snd score)) in
                  min_max_loop rec player cells board3
                    (if player = gs_ai \<and> score_greater (snd (snd score')) (snd (snd best))
                        \<or> player \<noteq> gs_ai \<and> score_less (snd (snd score')) (snd (snd best))
                     then score' else best)))))"

primrec min_max :: "nat \<Rightarrow> board \<Rightarrow> int \<Rightarrow> GameState \<Rightarrow> (error + board \<times> result) option" where
  "min_max 0 test_board depth player = None"
| "min_max (Suc fuel) test_board depth player =
     (let best = (if player = gs_ai then (-1, -1, NegInf) else (-1, -1, PosInf)) in
      case (if depth = 0 then Inr True
            else ebind (determine_win_state test_board gs_player) (\<lambda>w.
                 if w then Inr True else determine_win_state test_board gs_ai)) of
        Inl e \<Rightarrow> Some (Inl e)
      | Inr True \<Rightarrow>
         (case evaluate test_board of
            Inl e \<Rightarrow> Some (Inl e)
          | Inr score \<Rightarrow> Some (Inr (test_board, (-1, -1, Fin score))))
      | Inr False \<Rightarrow>
         (case determine_possible_positions test_board of
            Inl e \<Rightarrow> Some (Inl e)
          | Inr cells \<Rightarrow>
             min_max_loop (\<lambda>b. min_max fuel b (depth - 1) (negate player)) player cells
               test_board best))"

subsection \<open>\<^verbatim>\<open>process_turn\<close>: the depth of the search\<close>


definition search_depth :: "int \<Rightarrow> (int \<times> int) list \<Rightarrow> int" where
  "search_depth choice possible_positions = min choice (int (length possible_positions))"

subsection \<open>\<^verbatim>\<open>process_turn\<close>: the winner\<close>

text \<open>
  The \<^verbatim>\<open>winner\<close> that \<^verbatim>\<open>process_turn\<close> computes from the board: the author of the
  game when the player has a line, else the bot when the AI has one, else
  \<^verbatim>\<open>"Nobody"\<close> when no cell is empty, else \<^verbatim>\<open>None\<close> (the game goes on).
\<close>

datatype winner = Author | Bot | Nobody

definition winner_of :: "board \<Rightarrow> error + winner option" where
  "winner_of board =
     ebind (determine_win_state board gs_player) (\<lambda>wp.
     if wp then Inr (Some Author)
     else ebind (determine_win_state board gs_ai) (\<lambda>wa.
          if wa then Inr (Some Bot)
          else ebind (determine_possible_positions board) (\<lambda>cells.
               if length cells = 0 then Inr (Some Nobody) else Inr None)))"

subsection \<open>\<^verbatim>\<open>process_turn\<close>: the turn on the board\<close>

text \<open>
  What \<^verbatim>\<open>process_turn\<close> does with the board that it has decoded from the message,
  for the button at \<open>button_pos\<close>: nothing when the cell is taken (\<open>Inr None\<close>);
  else the player is placed there, the AI answers with the move of the search when the
  player has no line and a cell is empty, and the winner is computed. The search works
  on a copy (\<^verbatim>\<open>copy.deepcopy\<close>), so only its result is used.
\<close>

definition process_turn ::
  "nat \<Rightarrow> int \<Rightarrow> board \<Rightarrow> int \<times> int \<Rightarrow> (error + (board \<times> winner option) option) option" where
  "process_turn fuel choice board button_pos =
     (let finish = (\<lambda>b. case winner_of b of
                              Inl e \<Rightarrow> Some (Inl e)
                            | Inr w \<Rightarrow> Some (Inr (Some (b, w)))) in
      case get_cell board (fst button_pos) (snd button_pos) of
        Inl e \<Rightarrow> Some (Inl e)
      | Inr c \<Rightarrow>
         if c \<noteq> gs_empty then Some (Inr None)
         else (case set_cell board (fst button_pos) (snd button_pos) gs_player of
                 Inl e \<Rightarrow> Some (Inl e)
               | Inr board1 \<Rightarrow>
                  (case determine_win_state board1 gs_player of
                     Inl e \<Rightarrow> Some (Inl e)
                   | Inr True \<Rightarrow> finish board1
                   | Inr False \<Rightarrow>
                      (case determine_possible_positions board1 of
                         Inl e \<Rightarrow> Some (Inl e)
                       | Inr possible_positions \<Rightarrow>
                          if length possible_positions \<noteq> 0 then
                            (case min_max fuel board1
                                    (search_depth choice possible_positions) gs_ai of
                               None \<Rightarrow> None
                             | Some (Inl e) \<Rightarrow> Some (Inl e)
                             | Some (Inr (copy, move)) \<Rightarrow>
                                (case set_cell board1 (fst move) (fst (snd move)) gs_ai of
                                   Inl e \<Rightarrow> Some (Inl e)
                                 | Inr board2 \<Rightarrow> finish board2))
                          else finish board1))))"

section \<open>Notions used to state the properties\<close>

text \<open>A 3\<times>3 board: three rows of three cells.\<close>

definition is_board :: "board \<Rightarrow> bool" where
  "is_board board = (length board = 3 \<and> list_all (\<lambda>row. length row = 3) board)"

text \<open>The nine coordinates in row-major order.\<close>

definition board_cells :: "(int \<times> int) list" where
  "board_cells = [(0, 0), (0, 1), (0, 2), (1, 0), (1, 1), (1, 2), (2, 0), (2, 1), (2, 2)]"

definition occupied_count :: "board \<Rightarrow> nat" where
  "occupied_count board = length (filter (\<lambda>c. c \<noteq> gs_empty) (concat board))"

definition empty_count :: "board \<Rightarrow> nat" where
  "empty_count board = length (filter (\<lambda>c. c = gs_empty) (concat board))"

text \<open>
  The test of the loop of \<^verbatim>\<open>min_max\<close>: does the score \<open>s\<close> replace the running
  best score \<open>b\<close> for this player?
\<close>

definition better :: "GameState \<Rightarrow> score \<Rightarrow> score \<Rightarrow> bool" where
  "better player s b = (player = gs_ai \<and> score_greater s b \<or> player \<noteq> gs_ai \<and> score_less s b)"

text \<open>
  The loop without the board: the running best after the candidates \<open>[x, y, score]\<close>
  have been seen in order.
\<close>

fun select_best :: "GameState \<Rightarrow> result \<Rightarrow> result list \<Rightarrow> result" where
  "select_best player best [] = best"
| "select_best player best (c # cs) =
     select_best player (if better player (snd (snd c)) (snd (snd best)) then c else best) cs"

text \<open>The value of \<^verbatim>\<open>best\<close> before the loop.\<close>

definition initial_best :: "GameState \<Rightarrow> result" where
  "initial_best player = (if player = gs_ai then (-1, -1, NegInf) else (-1, -1, PosInf))"

text \<open>
  The score that the recursive call returns for the move \<open>c\<close>: the player is placed
  at \<open>c\<close> and the search is called with \<^verbatim>\<open>depth - 1\<close> for the other side.
  \<open>None\<close> when the write raises or the call does not return a result.
\<close>

definition child_score :: "nat \<Rightarrow> board \<Rightarrow> int \<Rightarrow> GameState \<Rightarrow> int \<times> int \<Rightarrow> score option" where
  "child_score fuel b d p c =
     (case set_cell b (fst c) (snd c) p of
        Inl e \<Rightarrow> None
      | Inr b1 \<Rightarrow>
         (case min_max fuel b1 (d - 1) (negate p) of
            Some (Inr (b2, r)) \<Rightarrow> Some (snd (snd r))
          | _ \<Rightarrow> None))"

text \<open>Boards used as examples.\<close>

definition drawn_board :: board where
  "drawn_board = [[gs_player, gs_ai, gs_player], [gs_player, gs_ai, gs_ai], [gs_ai, gs_player, gs_ai]]"

definition one_left_board :: board where
  "one_left_board = [[gs_ai, gs_ai, gs_empty], [gs_player, gs_player, gs_ai], [gs_player, gs_ai, gs_player]]"

definition two_left_board :: board where
  "two_left_board = [[gs_empty, gs_empty, gs_player], [gs_player, gs_ai, gs_ai], [gs_ai, gs_player, gs_player]]"

definition blocking_board :: board where
  "blocking_board = [[gs_player, gs_player, gs_empty], [gs_empty, gs_ai, gs_empty], [gs_empty, gs_empty, gs_empty]]"

subsection \<open>Games in which the AI follows the search\<close>

text \<open>
  \<open>position t b\<close>: the board \<open>b\<close>, with \<open>t\<close> to move, occurs in a game that starts
  on the empty board with the AI to move, in which the AI plays the move that
  \<^verbatim>\<open>min_max\<close> returns for the depth \<^verbatim>\<open>len(possible_positions)\<close> and the player
  answers with any legal move, for as long as \<open>winner_of\<close> is \<^verbatim>\<open>None\<close>.
\<close>

inductive position :: "GameState \<Rightarrow> board \<Rightarrow> bool" where
  start: "position gs_ai BoardTemplate"
| ai_move:
    "position gs_ai b \<Longrightarrow> winner_of b = Inr None \<Longrightarrow>
     determine_possible_positions b = Inr cells \<Longrightarrow>
     min_max fuel b (int (length cells)) gs_ai = Some (Inr (b', (x, y, s))) \<Longrightarrow>
     set_cell b x y gs_ai = Inr b1 \<Longrightarrow> position gs_player b1"
| player_move:
    "position gs_player b \<Longrightarrow> winner_of b = Inr None \<Longrightarrow>
     determine_possible_positions b = Inr cells \<Longrightarrow> (x, y) \<in> set cells \<Longrightarrow>
     set_cell b x y gs_player = Inr b1 \<Longrightarrow> position gs_ai b1"

text \<open>
  The search over the whole rest of the game, for \<open>p\<close> to move, gives the board a score
  of at least 0.
\<close>

definition not_losing :: "GameState \<Rightarrow> board \<Rightarrow> bool" where
  "not_losing p b =
     (\<exists>x y s. min_max (Suc (empty_count b)) b (int (empty_count b)) p = Some (Inr (b, (x, y, Fin s)))
        \<and> 0 \<le> s)"

text \<open>
  A plan for the AI: the cell to take, and a plan for each answer of the player, in the
  row-major order of the answers. \<open>safe\<close> checks that a plan can be followed on a board
  and that the player never completes a line; \<open>ai_plan\<close> is one plan for the empty board.
\<close>

datatype plan = Plan int int "plan list"

fun safe :: "plan \<Rightarrow> board \<Rightarrow> bool"
  and safe_replies :: "plan list \<Rightarrow> (int \<times> int) list \<Rightarrow> board \<Rightarrow> bool" where
  "safe (Plan x y replies) b =
     (case determine_possible_positions b of
        Inl e \<Rightarrow> False
      | Inr cells \<Rightarrow>
         (x, y) \<in> set cells \<and>
         (case set_cell b x y gs_ai of
            Inl e \<Rightarrow> False
          | Inr b1 \<Rightarrow>
             (if determine_win_state b1 gs_ai = Inr True then True
              else (case determine_possible_positions b1 of
                      Inl e \<Rightarrow> False
                    | Inr cells1 \<Rightarrow> safe_replies replies cells1 b1))))"
| "safe_replies [] [] b1 = True"
| "safe_replies (pl # pls) ((x, y) # cells) b1 =
     ((case set_cell b1 x y gs_player of
         Inl e \<Rightarrow> False
       | Inr b2 \<Rightarrow>
          determine_win_state b2 gs_player = Inr False
          \<and> (determine_possible_positions b2 = Inr [] \<or> safe pl b2))
      \<and> safe_replies pls cells b1)"
| "safe_replies [] (c # cells) b1 = False"
| "safe_replies (pl # pls) [] b1 = False"

definition ai_plan :: plan where
  "ai_plan =
     Plan 0 0
      [Plan 1 0 [Plan 2 0 [], Plan 2 0 [], Plan 2 0 [], Plan 1 1 [Plan 1 2 [],
         Plan 2 2 [], Plan 1 2 [], Plan 1 2 []], Plan 2 0 [], Plan 2 0 []],
       Plan 1 0 [Plan 2 0 [], Plan 2 0 [], Plan 2 0 [], Plan 1 1 [Plan 1 2 [],
         Plan 2 2 [], Plan 1 2 [], Plan 1 2 []], Plan 2 0 [], Plan 2 0 []],
       Plan 0 1 [Plan 1 1 [Plan 2 1 [], Plan 2 1 [], Plan 2 2 [], Plan 2 1 []],
         Plan 0 2 [], Plan 0 2 [], Plan 0 2 [], Plan 0 2 [], Plan 0 2 []],
       Plan 0 1 [Plan 2 0 [Plan 1 2 [Plan 2 2 [], Plan 2 1 []], Plan 1 0 [], Plan 1 0 [],
         Plan 1 0 []], Plan 0 2 [], Plan 0 2 [], Plan 0 2 [], Plan 0 2 [], Plan 0 2 []],
       Plan 0 2 [Plan 1 1 [Plan 2 0 [], Plan 2 2 [], Plan 2 0 [], Plan 2 0 []],
         Plan 0 1 [], Plan 0 1 [], Plan 0 1 [], Plan 0 1 [], Plan 0 1 []],
       Plan 0 1 [Plan 1 1 [Plan 2 1 [], Plan 2 1 [], Plan 2 2 [], Plan 2 1 []],
         Plan 0 2 [], Plan 0 2 [], Plan 0 2 [], Plan 0 2 [], Plan 0 2 []],
       Plan 0 2 [Plan 1 1 [Plan 2 0 [], Plan 2 0 [], Plan 2 2 [], Plan 2 0 []],
         Plan 0 1 [], Plan 0 1 [], Plan 0 1 [], Plan 0 1 [], Plan 0 1 []],
       Plan 0 2 [Plan 2 0 [Plan 1 1 [], Plan 1 0 [], Plan 1 0 [], Plan 1 0 []],
         Plan 0 1 [], Plan 0 1 [], Plan 0 1 [], Plan 0 1 [], Plan 0 1 []]]"

section \<open>Boards of three rows of three cells\<close>

lemma negate_value: "state_value (negate p) = - state_value p"
  by (cases p) simp_all

lemma get_cell_3x3:
  "get_cell [[a0,a1,a2],[b0,b1,b2],[c0,c1,c2]] 0 0 = Inr a0"
  "get_cell [[a0,a1,a2],[b0,b1,b2],[c0,c1,c2]] 0 1 = Inr a1"
  "get_cell [[a0,a1,a2],[b0,b1,b2],[c0,c1,c2]] 0 2 = Inr a2"
  "get_cell [[a0,a1,a2],[b0,b1,b2],[c0,c1,c2]] 1 0 = Inr b0"
  "get_cell [[a0,a1,a2],[b0,b1,b2],[c0,c1,c2]] 1 1 = Inr b1"
  "get_cell [[a0,a1,a2],[b0,b1,b2],[c0,c1,c2]] 1 2 = Inr b2"
  "get_cell [[a0,a1,a2],[b0,b1,b2],[c0,c1,c2]] 2 0 = Inr c0"
  "get_cell [[a0,a1,a2],[b0,b1,b2],[c0,c1,c2]] 2 1 = Inr c1"
  "get_cell [[a0,a1,a2],[b0,b1,b2],[c0,c1,c2]] 2 2 = Inr c2"
  by (simp_all add: get_cell_def getitem_def py_index_def ebind_def)

lemma length_3_explicit: "length xs = 3 \<Longrightarrow> \<exists>a b c. xs = [a, b, c]"
  by (cases xs; simp; cases "tl xs"; simp; cases "tl (tl xs)"; auto)

lemma is_board_explicit:
  assumes "is_board board"
  shows "\<exists>a0 a1 a2 b0 b1 b2 c0 c1 c2. board = [[a0,a1,a2],[b0,b1,b2],[c0,c1,c2]]"
proof -
  from assms obtain r0 r1 r2 where b: "board = [r0, r1, r2]"
    using length_3_explicit[of board] by (auto simp: is_board_def)
  with assms have "length r0 = 3" "length r1 = 3" "length r2 = 3"
    by (simp_all add: is_board_def)
  then show ?thesis
    using b length_3_explicit[of r0] length_3_explicit[of r1] length_3_explicit[of r2]
    by auto
qed

lemma is_board_3x3 [simp]: "is_board [[a0,a1,a2],[b0,b1,b2],[c0,c1,c2]]"
  by (simp add: is_board_def)

lemma win_states_3x3:
  "emap (emap (\<lambda>(i, x). get_cell [[a0,a1,a2],[b0,b1,b2],[c0,c1,c2]] i x)) win_lines =
   Inr [[a0,a1,a2],[b0,b1,b2],[c0,c1,c2],[a0,b0,c0],[a1,b1,c1],[a2,b2,c2],[a0,b1,c2],[c0,b1,a2]]"
  by (simp add: win_lines_def get_cell_3x3 ebind_def)

lemma filter_as_concat:
  "map fst (filter (\<lambda>(c, v). v = e) xs) = concat (map (\<lambda>(c, v). if v = e then [c] else []) xs)"
  by (induction xs) auto

lemma length_filter_zip:
  "length cs = length vs \<Longrightarrow> length (filter (\<lambda>(c, v). P v) (zip cs vs)) = length (filter P vs)"
  by (induction cs vs rule: list_induct2) auto

lemma positions_3x3:
  "determine_possible_positions [[a0,a1,a2],[b0,b1,b2],[c0,c1,c2]] =
     Inr (map fst (filter (\<lambda>(c, v). v = gs_empty)
            (zip board_cells (concat [[a0,a1,a2],[b0,b1,b2],[c0,c1,c2]]))))"
  unfolding filter_as_concat
  by (simp add: determine_possible_positions_def row_positions_def get_cell_3x3 ebind_def
      board_cells_def)

lemma positions_facts:
  assumes len: "length board_cells = length (concat B)"
  defines "ps \<equiv> map fst (filter (\<lambda>(c, v). v = gs_empty) (zip board_cells (concat B)))"
  shows "length ps + occupied_count B = length (concat B)"
    and "ps = [] \<longleftrightarrow> gs_empty \<notin> set (concat B)"
proof -
  have l: "length ps = length (filter (\<lambda>v. v = gs_empty) (concat B))"
    using length_filter_zip[OF len, of "\<lambda>v. v = gs_empty"] by (simp add: ps_def)
  have "length (filter (\<lambda>v. v = gs_empty) (concat B)) + occupied_count B = length (concat B)"
    unfolding occupied_count_def by (rule sum_length_filter_compl)
  with l show "length ps + occupied_count B = length (concat B)"
    by simp
  have "ps = [] \<longleftrightarrow> length ps = 0" by simp
  also have "\<dots> \<longleftrightarrow> filter (\<lambda>v. v = gs_empty) (concat B) = []"
    unfolding l by simp
  also have "\<dots> \<longleftrightarrow> gs_empty \<notin> set (concat B)"
    by (auto simp: filter_empty_conv)
  finally show "ps = [] \<longleftrightarrow> gs_empty \<notin> set (concat B)" .
qed

lemma win_state_3x3:
  "determine_win_state [[a0,a1,a2],[b0,b1,b2],[c0,c1,c2]] s =
     Inr ((a0 = s \<and> a1 = s \<and> a2 = s) \<or> (b0 = s \<and> b1 = s \<and> b2 = s) \<or> (c0 = s \<and> c1 = s \<and> c2 = s)
        \<or> (a0 = s \<and> b0 = s \<and> c0 = s) \<or> (a1 = s \<and> b1 = s \<and> c1 = s) \<or> (a2 = s \<and> b2 = s \<and> c2 = s)
        \<or> (a0 = s \<and> b1 = s \<and> c2 = s) \<or> (c0 = s \<and> b1 = s \<and> a2 = s))"
  unfolding determine_win_state_def win_states_3x3
  apply (simp only: ebind_def sum.case sum.inject set_simps insert_iff empty_iff list.inject simp_thms)
  apply (simp only: eq_commute[of s])
  done

lemma win_state_total: "is_board b \<Longrightarrow> \<exists>w. determine_win_state b s = Inr w"
  using is_board_explicit[of b] win_state_3x3 by metis

lemma evaluate_cases:
  "determine_win_state b gs_ai = Inr wa \<Longrightarrow> determine_win_state b gs_player = Inr wp \<Longrightarrow>
   evaluate b = Inr (if wa then 1 else if wp then -1 else 0)"
  by (simp add: evaluate_def ebind_def)

lemma evaluate_total: "is_board b \<Longrightarrow> \<exists>v. evaluate b = Inr v \<and> v \<in> {-1, 0, 1}"
  using win_state_total[of b gs_ai] win_state_total[of b gs_player]
  by (auto simp: evaluate_cases)

lemma positions_total:
  assumes "is_board b"
  shows "determine_possible_positions b =
     Inr (map fst (filter (\<lambda>(c, v). v = gs_empty) (zip board_cells (concat b))))"
  using is_board_explicit[OF assms] positions_3x3 by metis

lemma min_max_cutoff:
  "min_max (Suc fuel) b 0 p =
     (case evaluate b of Inl e \<Rightarrow> Some (Inl e) | Inr s \<Rightarrow> Some (Inr (b, (-1, -1, Fin s))))"
  by simp

lemma min_max_won:
  assumes "determine_win_state b gs_player = Inr wp" "determine_win_state b gs_ai = Inr wa"
    "wp \<or> wa" "evaluate b = Inr v"
  shows "min_max (Suc fuel) b d p = Some (Inr (b, (-1, -1, Fin v)))"
  using assms by (auto simp: ebind_def)

lemma min_max_open:
  assumes "determine_win_state b gs_player = Inr False" "determine_win_state b gs_ai = Inr False"
    "d \<noteq> 0" "determine_possible_positions b = Inr cells"
  shows "min_max (Suc fuel) b d p =
     min_max_loop (\<lambda>b'. min_max fuel b' (d - 1) (negate p)) p cells b
       (if p = gs_ai then (-1, -1, NegInf) else (-1, -1, PosInf))"
  using assms by (simp add: ebind_def)

text \<open>From here on the search is unfolded only where a proof asks for it.\<close>

declare min_max.simps(2) [simp del]

lemma min_max_no_moves:
  assumes "is_board b" "gs_empty \<notin> set (concat b)" "0 < depth"
  shows "\<exists>wp wa v. determine_win_state b gs_player = Inr wp
      \<and> determine_win_state b gs_ai = Inr wa \<and> evaluate b = Inr v
      \<and> min_max (Suc fuel) b depth p =
          Some (Inr (b, (-1, -1, if wp \<or> wa then Fin v else if p = gs_ai then NegInf else PosInf)))"
proof -
  obtain wp wa v where w: "determine_win_state b gs_player = Inr wp"
    "determine_win_state b gs_ai = Inr wa" "evaluate b = Inr v"
    using win_state_total[OF assms(1)] evaluate_total[OF assms(1)] by blast
  have len: "length board_cells = length (concat b)"
    using is_board_explicit[OF assms(1)] by (auto simp: board_cells_def)
  have ps: "determine_possible_positions b = Inr []"
    using positions_total[OF assms(1)] positions_facts(2)[OF len] assms(2) by simp
  have "min_max (Suc fuel) b depth p =
          Some (Inr (b, (-1, -1, if wp \<or> wa then Fin v else if p = gs_ai then NegInf else PosInf)))"
  proof (cases "wp \<or> wa")
    case True
    then show ?thesis using min_max_won[OF w(1,2) True w(3)] by simp
  next
    case False
    with w have "determine_win_state b gs_player = Inr False" "determine_win_state b gs_ai = Inr False"
      by simp_all
    from min_max_open[OF this _ ps, of depth fuel p] assms(3) False show ?thesis
      by simp
  qed
  with w show ?thesis by blast
qed


lemma set_cell_3x3:
  "set_cell [[a0,a1,a2],[b0,b1,b2],[c0,c1,c2]] 0 0 p = Inr [[p,a1,a2],[b0,b1,b2],[c0,c1,c2]]"
  "set_cell [[a0,a1,a2],[b0,b1,b2],[c0,c1,c2]] 0 1 p = Inr [[a0,p,a2],[b0,b1,b2],[c0,c1,c2]]"
  "set_cell [[a0,a1,a2],[b0,b1,b2],[c0,c1,c2]] 0 2 p = Inr [[a0,a1,p],[b0,b1,b2],[c0,c1,c2]]"
  "set_cell [[a0,a1,a2],[b0,b1,b2],[c0,c1,c2]] 1 0 p = Inr [[a0,a1,a2],[p,b1,b2],[c0,c1,c2]]"
  "set_cell [[a0,a1,a2],[b0,b1,b2],[c0,c1,c2]] 1 1 p = Inr [[a0,a1,a2],[b0,p,b2],[c0,c1,c2]]"
  "set_cell [[a0,a1,a2],[b0,b1,b2],[c0,c1,c2]] 1 2 p = Inr [[a0,a1,a2],[b0,b1,p],[c0,c1,c2]]"
  "set_cell [[a0,a1,a2],[b0,b1,b2],[c0,c1,c2]] 2 0 p = Inr [[a0,a1,a2],[b0,b1,b2],[p,c1,c2]]"
  "set_cell [[a0,a1,a2],[b0,b1,b2],[c0,c1,c2]] 2 1 p = Inr [[a0,a1,a2],[b0,b1,b2],[c0,p,c2]]"
  "set_cell [[a0,a1,a2],[b0,b1,b2],[c0,c1,c2]] 2 2 p = Inr [[a0,a1,a2],[b0,b1,b2],[c0,c1,p]]"
  by (simp_all add: set_cell_def getitem_def setitem_def py_index_def ebind_def)

lemma positions_3x3_if:
  "determine_possible_positions [[a0,a1,a2],[b0,b1,b2],[c0,c1,c2]] =
     Inr ((if a0 = gs_empty then [(0, 0)] else []) @ (if a1 = gs_empty then [(0, 1)] else [])
        @ (if a2 = gs_empty then [(0, 2)] else []) @ (if b0 = gs_empty then [(1, 0)] else [])
        @ (if b1 = gs_empty then [(1, 1)] else []) @ (if b2 = gs_empty then [(1, 2)] else [])
        @ (if c0 = gs_empty then [(2, 0)] else []) @ (if c1 = gs_empty then [(2, 1)] else [])
        @ (if c2 = gs_empty then [(2, 2)] else []))"
  unfolding positions_3x3 filter_as_concat by (simp add: board_cells_def)

lemma py_index_Some: "py_index n i = Some k \<Longrightarrow> k < n"
  by (auto simp: py_index_def split: if_splits)

lemma set_cell_restore:
  assumes "get_cell b i x = Inr v" "set_cell b i x p = Inr b1"
  shows "set_cell b1 i x v = Inr b"
proof -
  from assms(1) obtain k where k: "py_index (length b) i = Some k"
    by (auto simp: get_cell_def getitem_def ebind_def split: option.splits)
  with assms(1) obtain j where j: "py_index (length (b ! k)) x = Some j" and v: "b ! k ! j = v"
    by (auto simp: get_cell_def getitem_def ebind_def split: option.splits)
  from k j assms(2) have b1: "b1 = b[k := (b ! k)[j := p]]"
    by (simp add: set_cell_def getitem_def setitem_def ebind_def)
  have kl: "k < length b" using py_index_Some[OF k] .
  have "set_cell b1 i x v = Inr (b1[k := (b1 ! k)[j := v]])"
    using k j kl by (simp add: b1 set_cell_def getitem_def setitem_def ebind_def)
  also have "b1[k := (b1 ! k)[j := v]] = b"
    using kl v[symmetric] by (simp add: b1)
  finally show ?thesis .
qed

lemma emap_3:
  "emap f [a, b, c] = Inr ys \<Longrightarrow> \<exists>u v w. ys = [u, v, w] \<and> f a = Inr u \<and> f b = Inr v \<and> f c = Inr w"
  by (auto simp: ebind_def split: sum.splits)

lemma row_positions_empty:
  assumes "row_positions b i = Inr ps" "(x, y) \<in> set ps"
  shows "x = i \<and> get_cell b x y = Inr gs_empty"
proof -
  from assms(1) obtain cs where cs: "emap (\<lambda>x. ebind (get_cell b i x) (\<lambda>c. Inr (x, c))) [0, 1, 2] = Inr cs"
    and ps: "ps = map (\<lambda>(x, c). (i, x)) (filter (\<lambda>(x, c). c = gs_empty) cs)"
    by (auto simp: row_positions_def ebind_def split: sum.splits)
  from emap_3[OF cs] obtain u v w where uvw: "cs = [u, v, w]"
     "ebind (get_cell b i 0) (\<lambda>c. Inr (0, c)) = Inr u"
     "ebind (get_cell b i 1) (\<lambda>c. Inr (1, c)) = Inr v"
     "ebind (get_cell b i 2) (\<lambda>c. Inr (2, c)) = Inr w" by blast
  then have "get_cell b i 0 = Inr (snd u) \<and> fst u = 0" "get_cell b i 1 = Inr (snd v) \<and> fst v = 1"
    "get_cell b i 2 = Inr (snd w) \<and> fst w = 2"
    by (auto simp: ebind_def split: sum.splits)
  with assms(2) ps uvw(1) show ?thesis
    by (auto split: if_splits prod.splits)
qed

lemma positions_empty:
  assumes "determine_possible_positions b = Inr cells" "(x, y) \<in> set cells"
  shows "get_cell b x y = Inr gs_empty"
proof -
  from assms(1) obtain rows where rows: "emap (row_positions b) [0, 1, 2] = Inr rows"
    and c: "cells = concat rows"
    by (auto simp: determine_possible_positions_def ebind_def split: sum.splits)
  from emap_3[OF rows] obtain u v w where "rows = [u, v, w]" "row_positions b 0 = Inr u"
    "row_positions b 1 = Inr v" "row_positions b 2 = Inr w" by blast
  with assms(2) c show ?thesis
    using row_positions_empty by auto
qed

lemma loop_frame:
  assumes "\<And>b1 b2 r. rec b1 = Some (Inr (b2, r)) \<Longrightarrow> b2 = b1"
    and "\<forall>(x, y) \<in> set cells. get_cell b x y = Inr gs_empty"
    and "min_max_loop rec p cells b best = Some (Inr (b', r))"
  shows "b' = b"
  using assms(2,3)
proof (induction cells arbitrary: best)
  case Nil
  then show ?case by simp
next
  case (Cons c cells)
  obtain x y where c: "c = (x, y)" by (cases c)
  from Cons.prems(1) c have g: "get_cell b x y = Inr gs_empty" by simp
  from Cons.prems(2) c obtain b1 where b1: "set_cell b x y p = Inr b1"
    by (auto split: sum.splits)
  from Cons.prems(2) c b1 obtain b2 s where r: "rec b1 = Some (Inr (b2, s))"
    by (auto split: sum.splits option.splits)
  with assms(1) have "b2 = b1" by blast
  with r have r': "rec b1 = Some (Inr (b1, s))" by simp
  have undo: "set_cell b1 x y gs_empty = Inr b" using set_cell_restore[OF g b1] .
  from Cons.prems(2) c b1 r' undo obtain best' where
    "min_max_loop rec p cells b best' = Some (Inr (b', r))"
    by (auto simp: Let_def)
  with Cons.IH Cons.prems(1) show ?case by simp
qed

lemma min_max_frame: "min_max fuel b d p = Some (Inr (b', r)) \<Longrightarrow> b' = b"
proof (induction fuel arbitrary: b d p b' r)
  case 0
  then show ?case by simp
next
  case (Suc fuel)
  show ?case
  proof (cases "d = 0 \<or> determine_win_state b gs_player = Inr True \<or> determine_win_state b gs_ai = Inr True")
    case True
    with Suc.prems show ?thesis
      by (auto simp: min_max.simps(2) ebind_def split: sum.splits if_splits bool.splits)
  next
    case False
    with Suc.prems obtain cells where cells: "determine_possible_positions b = Inr cells"
      and loop: "min_max_loop (\<lambda>b'. min_max fuel b' (d - 1) (negate p)) p cells b
         (if p = gs_ai then (-1, -1, NegInf) else (-1, -1, PosInf)) = Some (Inr (b', r))"
      by (auto simp: min_max.simps(2) ebind_def split: sum.splits if_splits bool.splits)
    have "\<forall>(x, y) \<in> set cells. get_cell b x y = Inr gs_empty"
      using positions_empty[OF cells] by auto
    from loop_frame[OF _ this loop] Suc.IH show ?thesis by blast
  qed
qed

lemma loop_pure:
  assumes "\<forall>(x, y) \<in> set cells. get_cell b x y = Inr gs_empty
      \<and> (\<exists>b1 mx my. set_cell b x y p = Inr b1 \<and> rec b1 = Some (Inr (b1, (mx, my, sc (x, y)))))"
  shows "min_max_loop rec p cells b best =
     Some (Inr (b, select_best p best (map (\<lambda>(x, y). (x, y, sc (x, y))) cells)))"
  using assms
proof (induction cells arbitrary: best)
  case Nil
  then show ?case by simp
next
  case (Cons c cells)
  obtain x y where c: "c = (x, y)" by (cases c)
  from Cons.prems c obtain b1 mx my where g: "get_cell b x y = Inr gs_empty"
    and b1: "set_cell b x y p = Inr b1" and r: "rec b1 = Some (Inr (b1, (mx, my, sc (x, y))))"
    by auto
  have undo: "set_cell b1 x y gs_empty = Inr b" using set_cell_restore[OF g b1] .
  from Cons.prems have "\<forall>(x, y) \<in> set cells. get_cell b x y = Inr gs_empty
      \<and> (\<exists>b1 mx my. set_cell b x y p = Inr b1 \<and> rec b1 = Some (Inr (b1, (mx, my, sc (x, y)))))"
    by simp
  from Cons.IH[OF this] show ?case
    by (simp add: c b1 r undo better_def)
qed

lemma score_less_irrefl [simp]: "\<not> score_less a a"
  by (cases a) auto

lemma score_less_trans: "score_less a b \<Longrightarrow> score_less b c \<Longrightarrow> score_less a c"
  by (cases a; cases b; cases c) auto

lemma score_less_total: "score_less a b \<or> a = b \<or> score_less b a"
  by (cases a; cases b) auto

lemma better_irrefl [simp]: "\<not> better p a a"
  by (simp add: better_def score_greater_def)

lemma better_trans: "better p a b \<Longrightarrow> better p b c \<Longrightarrow> better p a c"
  unfolding better_def score_greater_def using score_less_trans by blast

lemma better_total: "better p a b \<or> a = b \<or> better p b a"
  unfolding better_def score_greater_def using score_less_total by blast

lemma better_asym: "better p a b \<Longrightarrow> \<not> better p b a"
  using better_trans better_irrefl by blast

lemma not_better_trans: "\<not> better p b a \<Longrightarrow> \<not> better p c b \<Longrightarrow> \<not> better p c a"
  using better_trans better_total by metis

lemma better_initial: "better p s (snd (snd (initial_best p))) \<longleftrightarrow> s \<noteq> snd (snd (initial_best p))"
  by (cases s) (auto simp: better_def initial_best_def score_greater_def)

lemma select_best_cases: "select_best p best cs = best \<or> select_best p best cs \<in> set cs"
proof (induction cs arbitrary: best)
  case Nil
  then show ?case by simp
next
  case (Cons c cs)
  from Cons.IH[of "if better p (snd (snd c)) (snd (snd best)) then c else best"]
  show ?case by (auto split: if_splits)
qed

lemma select_best_improves:
  "select_best p best cs \<noteq> best \<Longrightarrow> better p (snd (snd (select_best p best cs))) (snd (snd best))"
proof (induction cs arbitrary: best)
  case Nil
  then show ?case by simp
next
  case (Cons c cs)
  show ?case
  proof (cases "better p (snd (snd c)) (snd (snd best))")
    case True
    then have r: "select_best p best (c # cs) = select_best p c cs" by simp
    show ?thesis
    proof (cases "select_best p c cs = c")
      case True
      with r \<open>better p (snd (snd c)) (snd (snd best))\<close> show ?thesis by simp
    next
      case False
      from Cons.IH[OF False] \<open>better p (snd (snd c)) (snd (snd best))\<close> show ?thesis
        unfolding r by (rule better_trans)
    qed
  next
    case False
    then have r: "select_best p best (c # cs) = select_best p best cs" by simp
    with Cons.prems have "select_best p best cs \<noteq> best" by simp
    from Cons.IH[OF this] show ?thesis unfolding r .
  qed
qed

lemma select_best_extremal:
  "\<not> better p (snd (snd best)) (snd (snd (select_best p best cs)))
   \<and> (\<forall>c \<in> set cs. \<not> better p (snd (snd c)) (snd (snd (select_best p best cs))))"
proof (induction cs arbitrary: best)
  case Nil
  then show ?case by simp
next
  case (Cons c cs)
  let ?best' = "if better p (snd (snd c)) (snd (snd best)) then c else best"
  let ?r = "select_best p ?best' cs"
  from Cons.IH[of ?best'] have ih: "\<not> better p (snd (snd ?best')) (snd (snd ?r))"
    "\<forall>c \<in> set cs. \<not> better p (snd (snd c)) (snd (snd ?r))" by blast+
  have a: "\<not> better p (snd (snd best)) (snd (snd ?best'))"
    using better_asym by auto
  have b: "\<not> better p (snd (snd c)) (snd (snd ?best'))"
    by auto
  from not_better_trans[OF ih(1) a] not_better_trans[OF ih(1) b] ih(2)
  show ?case by simp
qed

lemma select_best_first:
  assumes "better p (snd (snd (select_best p best cs))) (snd (snd best))"
  shows "\<exists>k<length cs. cs ! k = select_best p best cs
     \<and> (\<forall>j<k. snd (snd (cs ! j)) \<noteq> snd (snd (select_best p best cs)))"
  using assms
proof (induction cs arbitrary: best)
  case Nil
  then show ?case by simp
next
  case (Cons c cs)
  let ?best' = "if better p (snd (snd c)) (snd (snd best)) then c else best"
  let ?r = "select_best p ?best' cs"
  have r: "select_best p best (c # cs) = ?r" by simp
  show ?case
  proof (cases "better p (snd (snd ?r)) (snd (snd ?best'))")
    case True
    from Cons.IH[OF True] obtain k where k: "k < length cs" "cs ! k = ?r"
      "\<forall>j<k. snd (snd (cs ! j)) \<noteq> snd (snd ?r)" by blast
    have "snd (snd c) \<noteq> snd (snd ?r)"
    proof
      assume e: "snd (snd c) = snd (snd ?r)"
      show False
      proof (cases "better p (snd (snd c)) (snd (snd best))")
        case True
        with \<open>better p (snd (snd ?r)) (snd (snd ?best'))\<close> e show False by simp
      next
        case False
        with Cons.prems e show False by simp
      qed
    qed
    with k have "Suc k < length (c # cs) \<and> (c # cs) ! Suc k = ?r
       \<and> (\<forall>j<Suc k. snd (snd ((c # cs) ! j)) \<noteq> snd (snd ?r))"
      by (auto simp: less_Suc_eq_0_disj)
    then show ?thesis unfolding r by blast
  next
    case False
    then have eq: "?r = ?best'" using select_best_improves by blast
    with Cons.prems have "?best' = c" by (auto split: if_splits)
    with eq have "0 < length (c # cs) \<and> (c # cs) ! 0 = ?r
       \<and> (\<forall>j<0. snd (snd ((c # cs) ! j)) \<noteq> snd (snd ?r))" by simp
    then show ?thesis unfolding r by blast
  qed
qed

lemma count_update:
  "k < length xs \<Longrightarrow> xs ! k = e \<Longrightarrow> v \<noteq> e \<Longrightarrow>
   length (filter (\<lambda>c. c = e) xs) = Suc (length (filter (\<lambda>c. c = e) (xs[k := v])))"
proof (induction xs arbitrary: k)
  case Nil
  then show ?case by simp
next
  case (Cons a xs)
  then show ?case by (cases k) auto
qed

lemma place_3x3:
  fixes a0 a1 a2 b0 b1 b2 c0 c1 c2 p :: GameState
  assumes "i \<in> {0, 1, 2}" "j \<in> {0, 1, 2}"
  defines "b \<equiv> [[a0,a1,a2],[b0,b1,b2],[c0,c1,c2]]"
  defines "b' \<equiv> b[nat i := (b ! nat i)[nat j := p]]"
  shows "set_cell b i j p = Inr b' \<and> is_board b' \<and> concat b' = (concat b)[nat (3 * i + j) := p]
     \<and> get_cell b i j = Inr (concat b ! nat (3 * i + j))"
proof -
  from assms(1,2) consider "i = 0 \<and> j = 0" | "i = 0 \<and> j = 1" | "i = 0 \<and> j = 2"
    | "i = 1 \<and> j = 0" | "i = 1 \<and> j = 1" | "i = 1 \<and> j = 2"
    | "i = 2 \<and> j = 0" | "i = 2 \<and> j = 1" | "i = 2 \<and> j = 2"
    by auto
  then show ?thesis
    unfolding b'_def b_def
    by cases
      (simp_all add: set_cell_def getitem_def setitem_def py_index_def ebind_def get_cell_3x3
        numeral_2_eq_2 numeral_3_eq_3 eval_nat_numeral)
qed

lemma place_concat:
  assumes "is_board b" "(x, y) \<in> set board_cells"
  shows "\<exists>b1 k. set_cell b x y p = Inr b1 \<and> is_board b1 \<and> k < length (concat b)
     \<and> concat b1 = (concat b)[k := p] \<and> get_cell b x y = Inr (concat b ! k)"
proof -
  from is_board_explicit[OF assms(1)] obtain a0 a1 a2 b0 b1 b2 c0 c1 c2
    where b: "b = [[a0,a1,a2],[b0,b1,b2],[c0,c1,c2]]" by blast
  from assms(2) have xy: "x \<in> {0, 1, 2}" "y \<in> {0, 1, 2}"
    by (auto simp: board_cells_def)
  then have "nat (3 * x + y) < length (concat b)"
    by (auto simp: b)
  with place_3x3[OF xy, of a0 a1 a2 b0 b1 b2 c0 c1 c2 p] show ?thesis
    unfolding b by blast
qed

lemma place_ok:
  assumes "is_board b" "(x, y) \<in> set board_cells"
  shows "\<exists>b1. set_cell b x y p = Inr b1 \<and> is_board b1
     \<and> (get_cell b x y = Inr gs_empty \<longrightarrow>
          empty_count b = empty_count b1 + (if p = gs_empty then 0 else 1))"
proof -
  from place_concat[OF assms, of p] obtain b1 k where b1: "set_cell b x y p = Inr b1"
    "is_board b1" "k < length (concat b)" "concat b1 = (concat b)[k := p]"
    "get_cell b x y = Inr (concat b ! k)" by blast
  have "empty_count b = empty_count b1 + (if p = gs_empty then 0 else 1)"
    if g: "get_cell b x y = Inr gs_empty"
  proof (cases "p = gs_empty")
    case True
    from g b1(5) have "concat b ! k = p" using True by simp
    then have "concat b1 = concat b" using b1(4) by (metis list_update_id)
    then show ?thesis using True by (simp add: empty_count_def)
  next
    case False
    from g b1(5) have "concat b ! k = gs_empty" by simp
    from count_update[OF b1(3) this False] show ?thesis
      using False by (simp add: empty_count_def b1(4))
  qed
  with b1 show ?thesis by blast
qed

lemma positions_in_board:
  assumes "is_board b" "determine_possible_positions b = Inr cells"
  shows "set cells \<subseteq> set board_cells" and "length cells = empty_count b"
proof -
  from is_board_explicit[OF assms(1)] have len: "length board_cells = length (concat b)"
    by (auto simp: board_cells_def)
  from assms positions_total[OF assms(1)]
  have c: "cells = map fst (filter (\<lambda>(c, v). v = gs_empty) (zip board_cells (concat b)))" by simp
  show "set cells \<subseteq> set board_cells"
    unfolding c using len by (auto dest: set_zip_leftD)
  show "length cells = empty_count b"
    unfolding c empty_count_def using length_filter_zip[OF len, of "\<lambda>v. v = gs_empty"] by simp
qed

lemma initial_best_simps:
  "initial_best gs_ai = (-1, -1, NegInf)" "p \<noteq> gs_ai \<Longrightarrow> initial_best p = (-1, -1, PosInf)"
  by (simp_all add: initial_best_def)

lemma child_scoreD:
  assumes "child_score fuel b d p (x, y) = Some s"
  shows "\<exists>b1 mx my. set_cell b x y p = Inr b1
     \<and> min_max fuel b1 (d - 1) (negate p) = Some (Inr (b1, (mx, my, s)))"
proof -
  from assms obtain b1 where b1: "set_cell b x y p = Inr b1"
    by (auto simp: child_score_def split: sum.splits)
  with assms obtain b2 r where r: "min_max fuel b1 (d - 1) (negate p) = Some (Inr (b2, r))"
    and s: "s = snd (snd r)"
    by (auto simp: child_score_def split: sum.splits option.splits)
  from min_max_frame[OF r] have "b2 = b1" .
  with b1 r s show ?thesis by (cases r) auto
qed

lemma child_scoreI:
  assumes "set_cell b x y p = Inr b1" "min_max fuel b1 (d - 1) (negate p) = Some (Inr (b2, (mx, my, s)))"
  shows "child_score fuel b d p (x, y) = Some s"
  using assms by (simp add: child_score_def)

lemma open_select:
  assumes "determine_win_state b gs_player = Inr False" "determine_win_state b gs_ai = Inr False"
    "d \<noteq> 0" "determine_possible_positions b = Inr cells"
    "\<forall>c \<in> set cells. child_score fuel b d p c = Some (sc c)"
  shows "min_max (Suc fuel) b d p =
     Some (Inr (b, select_best p (initial_best p) (map (\<lambda>(x, y). (x, y, sc (x, y))) cells)))"
proof -
  have "\<forall>(x, y) \<in> set cells. get_cell b x y = Inr gs_empty
      \<and> (\<exists>b1 mx my. set_cell b x y p = Inr b1
           \<and> min_max fuel b1 (d - 1) (negate p) = Some (Inr (b1, (mx, my, sc (x, y)))))"
    using positions_empty[OF assms(4)] child_scoreD assms(5) by blast
  from loop_pure[of cells b p "\<lambda>b'. min_max fuel b' (d - 1) (negate p)" sc, OF this]
  show ?thesis
    unfolding min_max_open[OF assms(1-4)] initial_best_def by simp
qed

lemma child_returns:
  assumes "is_board b" "determine_possible_positions b = Inr cells" "(x, y) \<in> set cells"
    and rec: "\<And>b1. is_board b1 \<Longrightarrow> empty_count b = empty_count b1 + (if p = gs_empty then 0 else 1)
      \<Longrightarrow> \<exists>mx my. min_max fuel b1 (d - 1) (negate p) = Some (Inr (b1, (mx, my, s b1)))"
  shows "\<exists>b1. set_cell b x y p = Inr b1 \<and> is_board b1 \<and> child_score fuel b d p (x, y) = Some (s b1)"
proof -
  have "(x, y) \<in> set board_cells" using positions_in_board(1)[OF assms(1,2)] assms(3) by blast
  from place_ok[OF assms(1) this, of p] positions_empty[OF assms(2,3)]
  obtain b1 where b1: "set_cell b x y p = Inr b1" "is_board b1"
    "empty_count b = empty_count b1 + (if p = gs_empty then 0 else 1)" by auto
  from rec[OF b1(2,3)] obtain mx my where
    "min_max fuel b1 (d - 1) (negate p) = Some (Inr (b1, (mx, my, s b1)))" by blast
  from child_scoreI[OF b1(1) this] b1 show ?thesis by blast
qed

lemma min_max_returns:
  "is_board b \<Longrightarrow> p \<noteq> gs_empty \<Longrightarrow> empty_count b < fuel \<Longrightarrow>
   \<exists>r. min_max fuel b d p = Some (Inr (b, r))"
proof (induction fuel arbitrary: b d p)
  case 0
  then show ?case by simp
next
  case (Suc fuel)
  obtain wp wa v where w: "determine_win_state b gs_player = Inr wp"
    "determine_win_state b gs_ai = Inr wa" "evaluate b = Inr v"
    using win_state_total[OF Suc.prems(1)] evaluate_total[OF Suc.prems(1)] by blast
  show ?case
  proof (cases "d = 0 \<or> wp \<or> wa")
    case True
    then show ?thesis
    proof (cases "d = 0")
      case True
      then show ?thesis using w(3) by (simp add: min_max_cutoff)
    next
      case False
      with True have "wp \<or> wa" by simp
      from min_max_won[OF w(1,2) this w(3)] show ?thesis by blast
    qed
  next
    case False
    with w have nw: "determine_win_state b gs_player = Inr False"
      "determine_win_state b gs_ai = Inr False" and d: "d \<noteq> 0" by simp_all
    obtain cells where cells: "determine_possible_positions b = Inr cells"
      using positions_total[OF Suc.prems(1)] by blast
    define sc where "sc c = the (child_score fuel b d p c)" for c
    have "\<forall>c \<in> set cells. child_score fuel b d p c = Some (sc c)"
    proof
      fix c assume c: "c \<in> set cells"
      obtain x y where xy: "c = (x, y)" by (cases c)
      have "\<exists>mx my. min_max fuel b1 (d - 1) (negate p) = Some (Inr (b1, (mx, my,
           snd (snd (snd (projr (the (min_max fuel b1 (d - 1) (negate p)))))))))"
        if "is_board b1" "empty_count b = empty_count b1 + (if p = gs_empty then 0 else 1)" for b1
      proof -
        from that Suc.prems have "empty_count b1 < fuel" "negate p \<noteq> gs_empty"
          by (cases p; simp)+
        from Suc.IH[OF that(1) this(2,1), of "d - 1"] show ?thesis by auto
      qed
      from child_returns[OF Suc.prems(1) cells c[unfolded xy], of p fuel d, OF this]
      show "child_score fuel b d p c = Some (sc c)"
        unfolding sc_def xy by auto
    qed
    from open_select[OF nw d cells this] show ?thesis by blast
  qed
qed

lemma loop_mono:
  assumes "\<And>b1 v. rec b1 = Some v \<Longrightarrow> rec' b1 = Some v"
    and "min_max_loop rec p cells b best = Some res"
  shows "min_max_loop rec' p cells b best = Some res"
  using assms(2)
proof (induction cells arbitrary: b best)
  case Nil
  then show ?case by simp
next
  case (Cons c cells)
  obtain x y where c: "c = (x, y)" by (cases c)
  show ?case
  proof (cases "set_cell b x y p")
    case (Inl e)
    with Cons.prems c show ?thesis by simp
  next
    case (Inr b1)
    with Cons.prems c obtain r1 where r1: "rec b1 = Some r1"
      by (auto split: option.splits)
    then have r1': "rec' b1 = Some r1" by (rule assms(1))
    show ?thesis
    proof (cases r1)
      case (Inl e)
      with Cons.prems show ?thesis by (auto simp: c \<open>set_cell b x y p = Inr b1\<close> r1 r1')
    next
      case r1_eq: (Inr br)
      obtain b2 s where br: "br = (b2, s)" by (cases br)
      note facts = c \<open>set_cell b x y p = Inr b1\<close> r1 r1' r1_eq br
      show ?thesis
      proof (cases "set_cell b2 x y gs_empty")
        case (Inl e)
        with Cons.prems show ?thesis by (auto simp: facts)
      next
        case b3: (Inr b3)
        let ?best = "if p = gs_ai \<and> score_greater (snd (snd s)) (snd (snd best))
                        \<or> p \<noteq> gs_ai \<and> score_less (snd (snd s)) (snd (snd best))
                     then (x, y, snd (snd s)) else best"
        from Cons.prems have "min_max_loop rec p cells b3 ?best = Some res"
          by (simp add: facts b3 Let_def)
        from Cons.IH[OF this] show ?thesis
          by (simp add: facts b3 Let_def)
      qed
    qed
  qed
qed

lemma min_max_step_mono:
  assumes "\<And>b1 v. min_max fuel b1 (d - 1) (negate p) = Some v \<Longrightarrow>
     min_max fuel' b1 (d - 1) (negate p) = Some v"
    and "min_max (Suc fuel) b d p = Some res"
  shows "min_max (Suc fuel') b d p = Some res"
proof -
  define cond where "cond = (if d = 0 then Inr True
            else ebind (determine_win_state b gs_player) (\<lambda>w.
                 if w then Inr True else determine_win_state b gs_ai))"
  define best where "best = (if p = gs_ai then (-1, -1, NegInf) else (-1 :: int, -1 :: int, PosInf))"
  have eq: "min_max (Suc n) b d p =
     (case cond of
        Inl e \<Rightarrow> Some (Inl e)
      | Inr True \<Rightarrow>
         (case evaluate b of
            Inl e \<Rightarrow> Some (Inl e)
          | Inr score \<Rightarrow> Some (Inr (b, (-1, -1, Fin score))))
      | Inr False \<Rightarrow>
         (case determine_possible_positions b of
            Inl e \<Rightarrow> Some (Inl e)
          | Inr cells \<Rightarrow>
             min_max_loop (\<lambda>b'. min_max n b' (d - 1) (negate p)) p cells b best))" for n
    unfolding cond_def best_def by (simp add: min_max.simps(2) Let_def)
  show ?thesis
  proof (cases cond)
    case (Inl e)
    with assms(2) show ?thesis unfolding eq by simp
  next
    case c: (Inr w)
    show ?thesis
    proof (cases w)
      case True
      with c assms(2) show ?thesis unfolding eq by simp
    next
      case False
      show ?thesis
      proof (cases "determine_possible_positions b")
        case (Inl e)
        with c False assms(2) show ?thesis unfolding eq by simp
      next
        case (Inr cells)
        with c False assms(2)
        have "min_max_loop (\<lambda>b'. min_max fuel b' (d - 1) (negate p)) p cells b best = Some res"
          unfolding eq by simp
        from loop_mono[of "\<lambda>b'. min_max fuel b' (d - 1) (negate p)"
            "\<lambda>b'. min_max fuel' b' (d - 1) (negate p)", OF assms(1) this]
        show ?thesis unfolding eq using c False Inr by simp
      qed
    qed
  qed
qed

lemma min_max_fuel_Suc: "min_max fuel b d p = Some r \<Longrightarrow> min_max (Suc fuel) b d p = Some r"
proof (induction fuel arbitrary: b d p r)
  case 0
  then show ?case by simp
next
  case (Suc fuel)
  show ?case
    by (rule min_max_step_mono[OF _ Suc.prems]) (rule Suc.IH)
qed

lemma min_max_fuel_add: "min_max fuel b d p = Some r \<Longrightarrow> min_max (fuel + k) b d p = Some r"
  by (induction k) (auto dest: min_max_fuel_Suc)

lemma min_max_fuel_le: "min_max fuel b d p = Some r \<Longrightarrow> fuel \<le> fuel' \<Longrightarrow> min_max fuel' b d p = Some r"
  using min_max_fuel_add[of fuel b d p r "fuel' - fuel"] by simp

lemma min_max_fuel_unique:
  assumes "min_max fuel b d p = Some r" "min_max fuel' b d p = Some r'"
  shows "r = r'"
proof -
  from assms(1) have "min_max (max fuel fuel') b d p = Some r" by (rule min_max_fuel_le) simp
  moreover from assms(2) have "min_max (max fuel fuel') b d p = Some r'" by (rule min_max_fuel_le) simp
  ultimately show ?thesis by simp
qed

lemma select_best_mem:
  assumes "cs \<noteq> []" "\<forall>c \<in> set cs. snd (snd c) \<noteq> snd (snd (initial_best p))"
  shows "select_best p (initial_best p) cs \<in> set cs"
proof (rule ccontr)
  assume "select_best p (initial_best p) cs \<notin> set cs"
  with select_best_cases[of p "initial_best p" cs]
  have e: "select_best p (initial_best p) cs = initial_best p" by blast
  from assms(1) obtain c where c: "c \<in> set cs" by (cases cs) auto
  with select_best_extremal[of p "initial_best p" cs] e
  have "\<not> better p (snd (snd c)) (snd (snd (initial_best p)))" by simp
  with assms(2) c show False by (simp add: better_initial)
qed

lemma open_select_the:
  assumes "determine_win_state b gs_player = Inr False" "determine_win_state b gs_ai = Inr False"
    "d \<noteq> 0" "determine_possible_positions b = Inr cells"
    "\<forall>c \<in> set cells. \<exists>s. child_score fuel b d p c = Some s"
  shows "min_max (Suc fuel) b d p =
     Some (Inr (b, select_best p (initial_best p)
        (map (\<lambda>(x, y). (x, y, the (child_score fuel b d p (x, y)))) cells)))"
  using open_select[OF assms(1-4), of fuel p "\<lambda>c. the (child_score fuel b d p c)"] assms(5)
  by fastforce

lemma min_max_bounded:
  "is_board b \<Longrightarrow> 0 \<le> d \<Longrightarrow> d \<le> int (empty_count b) \<Longrightarrow> nat d < fuel \<Longrightarrow>
   \<exists>x y s. min_max fuel b d p = Some (Inr (b, (x, y, Fin s))) \<and> s \<in> {-1, 0, 1}
     \<and> (d \<noteq> 0 \<and> determine_win_state b gs_player = Inr False
          \<and> determine_win_state b gs_ai = Inr False
        \<longrightarrow> (x, y) \<in> set board_cells \<and> get_cell b x y = Inr gs_empty)"
proof (induction fuel arbitrary: b d p)
  case 0
  then show ?case by simp
next
  case (Suc fuel)
  obtain wp wa v where w: "determine_win_state b gs_player = Inr wp"
    "determine_win_state b gs_ai = Inr wa" "evaluate b = Inr v" "v \<in> {-1, 0, 1}"
    using win_state_total[OF Suc.prems(1)] evaluate_total[OF Suc.prems(1)] by blast
  show ?case
  proof (cases "d = 0 \<or> wp \<or> wa")
    case True
    show ?thesis
    proof (cases "d = 0")
      case True
      then show ?thesis using w(3,4) by (simp add: min_max_cutoff)
    next
      case False
      with True have "wp \<or> wa" by simp
      from min_max_won[OF w(1,2) this w(3)] this w show ?thesis by auto
    qed
  next
    case False
    with w have nw: "determine_win_state b gs_player = Inr False"
      "determine_win_state b gs_ai = Inr False" and d: "d \<noteq> 0" by simp_all
    obtain cells where cells: "determine_possible_positions b = Inr cells"
      using positions_total[OF Suc.prems(1)] by blast
    note pib = positions_in_board[OF Suc.prems(1) cells]
    have child: "\<exists>t. child_score fuel b d p c = Some (Fin t) \<and> t \<in> {-1, 0, 1}"
      if c: "c \<in> set cells" for c
    proof -
      obtain x y where xy: "c = (x, y)" by (cases c)
      with c pib(1) have "(x, y) \<in> set board_cells" by blast
      from place_ok[OF Suc.prems(1) this, of p] positions_empty[OF cells c[unfolded xy]]
      obtain b1 where b1: "set_cell b x y p = Inr b1" "is_board b1"
        "empty_count b = empty_count b1 + (if p = gs_empty then 0 else 1)" by auto
      from b1(3) Suc.prems d have "0 \<le> d - 1" "d - 1 \<le> int (empty_count b1)" "nat (d - 1) < fuel"
        by (auto split: if_splits)
      from Suc.IH[OF b1(2) this, of "negate p"] obtain mx my t where
        "min_max fuel b1 (d - 1) (negate p) = Some (Inr (b1, (mx, my, Fin t)))" "t \<in> {-1, 0, 1}"
        by blast
      with child_scoreI[OF b1(1) this(1)] show ?thesis unfolding xy by blast
    qed
    let ?cs = "map (\<lambda>(x, y). (x, y, the (child_score fuel b d p (x, y)))) cells"
    have r: "min_max (Suc fuel) b d p = Some (Inr (b, select_best p (initial_best p) ?cs))"
      using open_select_the[OF nw d cells, of fuel p] child by blast
    from pib(2) Suc.prems d have "cells \<noteq> []" by auto
    then have ne: "?cs \<noteq> []" by simp
    have "\<forall>c \<in> set ?cs. snd (snd c) \<noteq> snd (snd (initial_best p))"
    proof
      fix c assume "c \<in> set ?cs"
      then obtain x y where xy: "(x, y) \<in> set cells"
        "c = (x, y, the (child_score fuel b d p (x, y)))" by auto
      from child[OF xy(1)] obtain t where "child_score fuel b d p (x, y) = Some (Fin t)" by blast
      with xy(2) show "snd (snd c) \<noteq> snd (snd (initial_best p))"
        by (simp add: initial_best_def)
    qed
    from select_best_mem[OF ne this] obtain x y where xy: "(x, y) \<in> set cells"
      "select_best p (initial_best p) ?cs = (x, y, the (child_score fuel b d p (x, y)))"
      by auto
    from child[OF xy(1)] obtain t where t: "child_score fuel b d p (x, y) = Some (Fin t)"
      "t \<in> {-1, 0, 1}" by blast
    from xy(1) pib(1) positions_empty[OF cells xy(1)]
    have "(x, y) \<in> set board_cells \<and> get_cell b x y = Inr gs_empty" by blast
    with r xy(2) t show ?thesis by auto
  qed
qed

lemma min_max_characterised:
  assumes "is_board b" "p \<noteq> gs_empty" "empty_count b \<le> fuel"
    "determine_win_state b gs_player = Inr False" "determine_win_state b gs_ai = Inr False"
    "d \<noteq> 0" "determine_possible_positions b = Inr cells"
  shows "\<exists>x y s. min_max (Suc fuel) b d p = Some (Inr (b, (x, y, s)))
     \<and> (\<forall>c \<in> set cells. \<exists>t. child_score fuel b d p c = Some t \<and> \<not> better p t s)
     \<and> (if s = snd (snd (initial_best p)) then (x, y) = (-1, -1)
         else \<exists>k<length cells. cells ! k = (x, y) \<and> child_score fuel b d p (x, y) = Some s
                \<and> (\<forall>j<k. child_score fuel b d p (cells ! j) \<noteq> Some s))"
proof -
  note pib = positions_in_board[OF assms(1,7)]
  have child: "\<exists>t. child_score fuel b d p c = Some t" if c: "c \<in> set cells" for c
  proof -
    obtain x y where xy: "c = (x, y)" by (cases c)
    with c pib(1) have "(x, y) \<in> set board_cells" by blast
    from place_ok[OF assms(1) this, of p] positions_empty[OF assms(7) c[unfolded xy]]
    obtain b1 where b1: "set_cell b x y p = Inr b1" "is_board b1"
      "empty_count b = empty_count b1 + (if p = gs_empty then 0 else 1)" by auto
    from b1(3) assms(2,3) have "empty_count b1 < fuel" "negate p \<noteq> gs_empty"
      by (cases p; simp)+
    from min_max_returns[OF b1(2) this(2,1), of "d - 1"] obtain r where
      "min_max fuel b1 (d - 1) (negate p) = Some (Inr (b1, r))" by blast
    with child_scoreI[OF b1(1), of fuel d b1 "fst r" "fst (snd r)" "snd (snd r)"]
    show ?thesis unfolding xy by auto
  qed
  let ?sc = "\<lambda>c. the (child_score fuel b d p c)"
  let ?cs = "map (\<lambda>(x, y). (x, y, ?sc (x, y))) cells"
  let ?r = "select_best p (initial_best p) ?cs"
  have r: "min_max (Suc fuel) b d p = Some (Inr (b, ?r))"
    using open_select_the[OF assms(4,5,6,7), of fuel p] child by blast
  obtain x y s where xys: "?r = (x, y, s)" by (cases ?r)
  have ext: "\<forall>c \<in> set cells. \<exists>t. child_score fuel b d p c = Some t \<and> \<not> better p t s"
  proof
    fix c assume c: "c \<in> set cells"
    then have "(\<lambda>(x, y). (x, y, ?sc (x, y))) c \<in> set ?cs" by (rule imageI[of c "set cells", folded set_map])
    then have "(fst c, snd c, ?sc c) \<in> set ?cs" by (simp add: case_prod_beta)
    with select_best_extremal[of p "initial_best p" ?cs] xys
    have "\<not> better p (?sc c) s" by fastforce
    with child[OF c] show "\<exists>t. child_score fuel b d p c = Some t \<and> \<not> better p t s" by auto
  qed
  have first: "if s = snd (snd (initial_best p)) then (x, y) = (-1, -1)
         else \<exists>k<length cells. cells ! k = (x, y) \<and> child_score fuel b d p (x, y) = Some s
                \<and> (\<forall>j<k. child_score fuel b d p (cells ! j) \<noteq> Some s)"
  proof (cases "s = snd (snd (initial_best p))")
    case True
    then have "\<not> better p (snd (snd ?r)) (snd (snd (initial_best p)))" using xys by simp
    with select_best_improves[of p "initial_best p" ?cs] have "?r = initial_best p" by blast
    with xys True show ?thesis by (auto simp: initial_best_def split: if_splits)
  next
    case False
    then have "better p (snd (snd ?r)) (snd (snd (initial_best p)))"
      using xys by (simp add: better_initial)
    from select_best_first[OF this] obtain k where k: "k < length ?cs" "?cs ! k = ?r"
      "\<forall>j<k. snd (snd (?cs ! j)) \<noteq> snd (snd ?r)" by blast
    from k(1) have kl: "k < length cells" by simp
    obtain cx cy where ck: "cells ! k = (cx, cy)" by (cases "cells ! k")
    from k(2) kl ck have "(cx, cy, ?sc (cx, cy)) = ?r" by simp
    then have t: "(cx, cy, ?sc (cx, cy)) = (x, y, s)" unfolding xys .
    then have e12: "cx = x" "cy = y" by simp_all
    from t[unfolded e12] have e3: "?sc (x, y) = s" by simp
    note e = e12 e3
    with child[of "(x, y)"] kl ck have cs: "child_score fuel b d p (x, y) = Some s"
      by (metis nth_mem option.sel)
    have "child_score fuel b d p (cells ! j) \<noteq> Some s" if "j < k" for j
    proof -
      from that kl have jl: "j < length cells" by simp
      obtain jx jy where cj: "cells ! j = (jx, jy)" by (cases "cells ! j")
      from k(3) that jl cj xys have "?sc (jx, jy) \<noteq> s" by auto
      then show ?thesis unfolding cj by auto
    qed
    with False kl ck e cs show ?thesis by auto
  qed
  from r xys ext first show ?thesis by simp
qed

section \<open>Evaluating the search on example boards\<close>

lemmas eval_rules = min_max.simps(2) win_state_3x3 positions_3x3_if set_cell_3x3 evaluate_def
  ebind_def score_greater_def Let_def

lemma BoardTemplate_facts:
  "is_board BoardTemplate" "empty_count BoardTemplate = 9"
  "determine_win_state BoardTemplate gs_player = Inr False"
  "determine_win_state BoardTemplate gs_ai = Inr False"
  "determine_possible_positions BoardTemplate = Inr board_cells"
  by (simp_all add: BoardTemplate_def empty_count_def win_state_3x3 positions_3x3 board_cells_def)

lemma two_left_facts:
  "is_board two_left_board" "empty_count two_left_board = 2"
  "determine_win_state two_left_board gs_player = Inr False"
  "determine_win_state two_left_board gs_ai = Inr False"
  "determine_possible_positions two_left_board = Inr [(0, 0), (0, 1)]"
  by (simp_all add: two_left_board_def empty_count_def win_state_3x3 positions_3x3_if)

lemma two_left_eval:
  "min_max (Suc (Suc (Suc 0))) two_left_board 2 gs_ai = Some (Inr (two_left_board, (0, 0, Fin 0)))"
  "min_max (Suc (Suc (Suc (Suc 0)))) two_left_board 3 gs_ai
     = Some (Inr (two_left_board, (-1, -1, NegInf)))"
  "child_score (Suc (Suc (Suc 0))) two_left_board 3 gs_ai (0, 0) = Some NegInf"
  "child_score (Suc (Suc (Suc 0))) two_left_board 3 gs_ai (0, 1) = Some NegInf"
  by (simp_all add: two_left_board_def child_score_def eval_rules)

section \<open>Games against the search\<close>

lemma win_state_place:
  assumes "is_board b" "(x, y) \<in> set board_cells" "get_cell b x y = Inr gs_empty"
    "set_cell b x y q = Inr b1" "s \<noteq> q" "s \<noteq> gs_empty"
  shows "determine_win_state b1 s = determine_win_state b s"
proof -
  from is_board_explicit[OF assms(1)] obtain a0 a1 a2 b0 b1 b2 c0 c1 c2
    where b: "b = [[a0,a1,a2],[b0,b1,b2],[c0,c1,c2]]" by blast
  from assms(2) consider "x = 0 \<and> y = 0" | "x = 0 \<and> y = 1" | "x = 0 \<and> y = 2"
    | "x = 1 \<and> y = 0" | "x = 1 \<and> y = 1" | "x = 1 \<and> y = 2"
    | "x = 2 \<and> y = 0" | "x = 2 \<and> y = 1" | "x = 2 \<and> y = 2"
    by (auto simp: board_cells_def)
  then show ?thesis
    using assms(3,4,5,6) unfolding b
    by cases (auto simp: get_cell_3x3 set_cell_3x3 win_state_3x3)
qed

lemma child_full:
  assumes "is_board b" "determine_possible_positions b = Inr cells" "(x, y) \<in> set cells"
    "set_cell b x y p = Inr b1" "p \<noteq> gs_empty"
  shows "is_board b1" "empty_count b = Suc (empty_count b1)"
    "(x, y) \<in> set board_cells" "get_cell b x y = Inr gs_empty"
    "child_score (empty_count b) b (int (empty_count b)) p (x, y) = Some t \<longleftrightarrow>
       (\<exists>mx my. min_max (Suc (empty_count b1)) b1 (int (empty_count b1)) (negate p)
           = Some (Inr (b1, (mx, my, t))))"
proof -
  show bc: "(x, y) \<in> set board_cells"
    using positions_in_board(1)[OF assms(1,2)] assms(3) by blast
  show g: "get_cell b x y = Inr gs_empty" using positions_empty[OF assms(2,3)] .
  from place_ok[OF assms(1) bc, of p] g assms(4,5)
  show ib: "is_board b1" and ec: "empty_count b = Suc (empty_count b1)" by auto
  have e: "min_max (empty_count b) b1 (int (empty_count b) - 1) (negate p)
     = min_max (Suc (empty_count b1)) b1 (int (empty_count b1)) (negate p)"
    using ec by simp
  show "child_score (empty_count b) b (int (empty_count b)) p (x, y) = Some t \<longleftrightarrow>
       (\<exists>mx my. min_max (Suc (empty_count b1)) b1 (int (empty_count b1)) (negate p)
           = Some (Inr (b1, (mx, my, t))))"
  proof
    assume "child_score (empty_count b) b (int (empty_count b)) p (x, y) = Some t"
    from child_scoreD[OF this] assms(4) show "\<exists>mx my. min_max (Suc (empty_count b1)) b1
       (int (empty_count b1)) (negate p) = Some (Inr (b1, (mx, my, t)))"
      using e by auto
  next
    assume "\<exists>mx my. min_max (Suc (empty_count b1)) b1 (int (empty_count b1)) (negate p)
           = Some (Inr (b1, (mx, my, t)))"
    then obtain mx my where "min_max (empty_count b) b1 (int (empty_count b) - 1) (negate p)
           = Some (Inr (b1, (mx, my, t)))" using e by auto
    from child_scoreI[OF assms(4) this]
    show "child_score (empty_count b) b (int (empty_count b)) p (x, y) = Some t" .
  qed
qed

lemma full_result:
  assumes "is_board b" "determine_win_state b gs_player = Inr False"
    "determine_win_state b gs_ai = Inr False" "determine_possible_positions b = Inr cells"
    "cells \<noteq> []" "p \<noteq> gs_empty"
  shows "\<exists>x y s. min_max (Suc (empty_count b)) b (int (empty_count b)) p = Some (Inr (b, (x, y, Fin s)))
     \<and> (x, y) \<in> set cells
     \<and> child_score (empty_count b) b (int (empty_count b)) p (x, y) = Some (Fin s)
     \<and> (\<forall>c \<in> set cells. \<exists>t. child_score (empty_count b) b (int (empty_count b)) p c = Some t
            \<and> \<not> better p t (Fin s))"
proof -
  let ?n = "empty_count b"
  have n: "?n = length cells" using positions_in_board(2)[OF assms(1,4)] by simp
  with assms(5) have d: "int ?n \<noteq> 0" by simp
  from min_max_bounded[OF assms(1), of "int ?n" "Suc ?n" p]
  obtain x0 y0 s0 where r0: "min_max (Suc ?n) b (int ?n) p = Some (Inr (b, (x0, y0, Fin s0)))"
    by auto
  from min_max_characterised[OF assms(1,6) order_refl assms(2,3) d assms(4)]
  obtain x y s where r: "min_max (Suc ?n) b (int ?n) p = Some (Inr (b, (x, y, s)))"
    and ext: "\<forall>c \<in> set cells. \<exists>t. child_score ?n b (int ?n) p c = Some t \<and> \<not> better p t s"
    and first: "if s = snd (snd (initial_best p)) then (x, y) = (-1, -1)
         else \<exists>k<length cells. cells ! k = (x, y) \<and> child_score ?n b (int ?n) p (x, y) = Some s
                \<and> (\<forall>j<k. child_score ?n b (int ?n) p (cells ! j) \<noteq> Some s)"
    by blast
  from r r0 have s: "s = Fin s0" by simp
  then have "s \<noteq> snd (snd (initial_best p))" by (simp add: initial_best_def)
  with first obtain k where "k < length cells" "cells ! k = (x, y)"
    "child_score ?n b (int ?n) p (x, y) = Some s" by auto
  then have "(x, y) \<in> set cells" "child_score ?n b (int ?n) p (x, y) = Some (Fin s0)"
    using s by (auto simp: in_set_conv_nth)
  with r ext s show ?thesis by blast
qed

lemma not_losing_terminal:
  assumes "is_board b" "determine_win_state b gs_player = Inr False"
    "determine_win_state b gs_ai = Inr True \<or> empty_count b = 0"
  shows "not_losing p b"
proof -
  obtain wa where wa: "determine_win_state b gs_ai = Inr wa"
    using win_state_total[OF assms(1)] by blast
  note ev = evaluate_cases[OF wa assms(2)]
  show ?thesis
  proof (cases wa)
    case True
    with min_max_won[OF assms(2) wa _ ev, of "empty_count b" "int (empty_count b)" p]
    show ?thesis by (simp add: not_losing_def)
  next
    case False
    with assms(3) wa have "empty_count b = 0" by simp
    with False ev show ?thesis by (simp add: not_losing_def min_max_cutoff)
  qed
qed

lemma not_losing_ai:
  assumes "is_board b" "determine_win_state b gs_player = Inr False"
    "determine_win_state b gs_ai = Inr False" "determine_possible_positions b = Inr cells"
    "(x, y) \<in> set cells" "set_cell b x y gs_ai = Inr b1" "not_losing gs_player b1"
  shows "not_losing gs_ai b"
proof -
  let ?n = "empty_count b"
  from assms(5) have ne: "cells \<noteq> []" by auto
  from full_result[OF assms(1-4) ne, of gs_ai]
  obtain x0 y0 s where r: "min_max (Suc ?n) b (int ?n) gs_ai = Some (Inr (b, (x0, y0, Fin s)))"
    and ext: "\<forall>c \<in> set cells. \<exists>t. child_score ?n b (int ?n) gs_ai c = Some t
            \<and> \<not> better gs_ai t (Fin s)" by auto
  from ext assms(5) obtain t where t: "child_score ?n b (int ?n) gs_ai (x, y) = Some t"
    "\<not> better gs_ai t (Fin s)" by blast
  from child_full(5)[OF assms(1,4,5,6), of t] t(1)
  obtain mx my where c: "min_max (Suc (empty_count b1)) b1 (int (empty_count b1)) gs_player
      = Some (Inr (b1, (mx, my, t)))" by auto
  from assms(7) c obtain s1 where "t = Fin s1" "0 \<le> s1"
    by (auto simp: not_losing_def)
  with t(2) have "0 \<le> s" by (simp add: better_def score_greater_def)
  with r show ?thesis by (auto simp: not_losing_def)
qed

lemma not_losing_player:
  assumes "is_board b" "determine_win_state b gs_player = Inr False"
    "determine_win_state b gs_ai = Inr False" "determine_possible_positions b = Inr cells"
    "cells \<noteq> []"
    "\<forall>(x, y) \<in> set cells. \<exists>b1. set_cell b x y gs_player = Inr b1 \<and> not_losing gs_ai b1"
  shows "not_losing gs_player b"
proof -
  let ?n = "empty_count b"
  from full_result[OF assms(1-5), of gs_player]
  obtain x y s where r: "min_max (Suc ?n) b (int ?n) gs_player = Some (Inr (b, (x, y, Fin s)))"
    and xy: "(x, y) \<in> set cells"
    and c: "child_score ?n b (int ?n) gs_player (x, y) = Some (Fin s)" by auto
  from assms(6) xy obtain b1 where b1: "set_cell b x y gs_player = Inr b1" "not_losing gs_ai b1"
    by auto
  from child_full(5)[OF assms(1,4) xy b1(1), of "Fin s"] c
  obtain mx my where "min_max (Suc (empty_count b1)) b1 (int (empty_count b1)) gs_ai
      = Some (Inr (b1, (mx, my, Fin s)))" by auto
  with b1(2) have "0 \<le> s" by (auto simp: not_losing_def)
  with r show ?thesis by (auto simp: not_losing_def)
qed

lemma ai_move_keeps:
  assumes "is_board b" "determine_win_state b gs_player = Inr False"
    "determine_win_state b gs_ai = Inr False" "determine_possible_positions b = Inr cells"
    "cells \<noteq> []" "not_losing gs_ai b"
    "min_max fuel b (int (length cells)) gs_ai = Some (Inr (b', (x, y, s)))"
    "set_cell b x y gs_ai = Inr b1"
  shows "is_board b1 \<and> determine_win_state b1 gs_player = Inr False \<and> not_losing gs_player b1"
proof -
  let ?n = "empty_count b"
  have n: "length cells = ?n" using positions_in_board(2)[OF assms(1,4)] .
  from full_result[OF assms(1-5), of gs_ai]
  obtain x0 y0 s0 where r: "min_max (Suc ?n) b (int ?n) gs_ai = Some (Inr (b, (x0, y0, Fin s0)))"
    and xy0: "(x0, y0) \<in> set cells"
    and c: "child_score ?n b (int ?n) gs_ai (x0, y0) = Some (Fin s0)" by auto
  from min_max_fuel_unique[OF r assms(7)[unfolded n]]
  have e: "x = x0" "y = y0" "s = Fin s0" by simp_all
  from assms(6) r have s0: "0 \<le> s0" by (auto simp: not_losing_def)
  have "gs_ai \<noteq> gs_empty" by simp
  note cf = child_full[OF assms(1,4) xy0 assms(8)[unfolded e] this]
  from cf(5)[of "Fin s0"] c obtain mx my where "min_max (Suc (empty_count b1)) b1 (int (empty_count b1))
     gs_player = Some (Inr (b1, (mx, my, Fin s0)))" by auto
  with s0 have "not_losing gs_player b1" by (auto simp: not_losing_def)
  moreover from win_state_place[OF assms(1) cf(3,4) assms(8)[unfolded e], of gs_player] assms(2)
  have "determine_win_state b1 gs_player = Inr False" by simp
  ultimately show ?thesis using cf(1) by simp
qed

lemma player_move_keeps:
  assumes "is_board b" "determine_win_state b gs_player = Inr False"
    "determine_win_state b gs_ai = Inr False" "determine_possible_positions b = Inr cells"
    "(x, y) \<in> set cells" "not_losing gs_player b" "set_cell b x y gs_player = Inr b1"
  shows "is_board b1 \<and> determine_win_state b1 gs_player = Inr False \<and> not_losing gs_ai b1"
proof -
  let ?n = "empty_count b"
  from assms(5) have ne: "cells \<noteq> []" by auto
  from full_result[OF assms(1-4) ne, of gs_player]
  obtain x0 y0 s where r: "min_max (Suc ?n) b (int ?n) gs_player = Some (Inr (b, (x0, y0, Fin s)))"
    and ext: "\<forall>c \<in> set cells. \<exists>t. child_score ?n b (int ?n) gs_player c = Some t
            \<and> \<not> better gs_player t (Fin s)" by auto
  from assms(6) r have s: "0 \<le> s" by (auto simp: not_losing_def)
  from ext assms(5) obtain t where t: "child_score ?n b (int ?n) gs_player (x, y) = Some t"
    "\<not> better gs_player t (Fin s)" by blast
  have "gs_player \<noteq> gs_empty" by simp
  note cf = child_full[OF assms(1,4,5,7) this]
  from cf(5)[of t] t(1) obtain mx my where c: "min_max (Suc (empty_count b1)) b1
     (int (empty_count b1)) gs_ai = Some (Inr (b1, (mx, my, t)))" by auto
  from min_max_bounded[OF cf(1), of "int (empty_count b1)" "Suc (empty_count b1)" gs_ai] c
  obtain t' where t': "t = Fin t'" by auto
  with t(2) s have t0: "0 \<le> t'" by (simp add: better_def score_less.simps)
  with c t' have nl: "not_losing gs_ai b1" by (auto simp: not_losing_def)
  obtain w where w: "determine_win_state b1 gs_player = Inr w"
    using win_state_total[OF cf(1)] by blast
  have "\<not> w"
  proof
    assume w
    from win_state_place[OF assms(1) cf(3,4) assms(7), of gs_ai] assms(3)
    have wa: "determine_win_state b1 gs_ai = Inr False" by simp
    from evaluate_cases[OF wa w] \<open>w\<close> have "evaluate b1 = Inr (-1)" by simp
    from min_max_won[OF w wa _ this, of "empty_count b1" "int (empty_count b1)" gs_ai] \<open>w\<close> c t' t0
    show False by simp
  qed
  with w nl cf(1) show ?thesis by simp
qed

lemma winner_of_None:
  assumes "winner_of b = Inr None"
  shows "determine_win_state b gs_player = Inr False" "determine_win_state b gs_ai = Inr False"
    "\<exists>cells. determine_possible_positions b = Inr cells \<and> cells \<noteq> []"
  using assms by (auto simp: winner_of_def ebind_def split: sum.splits if_splits)

lemma safe_sound:
  "safe pl b \<Longrightarrow> is_board b \<Longrightarrow> determine_win_state b gs_player = Inr False \<Longrightarrow>
     determine_win_state b gs_ai = Inr False \<Longrightarrow> not_losing gs_ai b"
  "safe_replies pls cells b1 \<Longrightarrow> is_board b1 \<Longrightarrow> determine_win_state b1 gs_player = Inr False \<Longrightarrow>
     determine_win_state b1 gs_ai = Inr False \<Longrightarrow>
     (\<forall>c \<in> set cells. c \<in> set board_cells \<and> get_cell b1 (fst c) (snd c) = Inr gs_empty) \<Longrightarrow>
     \<forall>(x, y) \<in> set cells. \<exists>b2. set_cell b1 x y gs_player = Inr b2 \<and> not_losing gs_ai b2"
proof (induction pl b and pls cells b1 rule: safe_safe_replies.induct)
  case (1 x y replies b)
  from "1.prems"(1) obtain cells where cells: "determine_possible_positions b = Inr cells"
    and xy: "(x, y) \<in> set cells"
    by (auto split: sum.splits)
  from "1.prems"(1) cells obtain b1 where b1: "set_cell b x y gs_ai = Inr b1"
    by (auto split: sum.splits)
  from "1.prems"(1) cells xy b1
  have rest: "determine_win_state b1 gs_ai = Inr True
     \<or> (determine_win_state b1 gs_ai \<noteq> Inr True
        \<and> (\<exists>cells1. determine_possible_positions b1 = Inr cells1 \<and> safe_replies replies cells1 b1))"
    by (auto split: sum.splits if_splits)
  have "gs_ai \<noteq> gs_empty" by simp
  note cf = child_full[OF "1.prems"(2) cells xy b1 this]
  from win_state_place[OF "1.prems"(2) cf(3,4) b1, of gs_player] "1.prems"(3)
  have wp: "determine_win_state b1 gs_player = Inr False" by simp
  have "not_losing gs_player b1"
  proof (cases "determine_win_state b1 gs_ai = Inr True")
    case True
    then show ?thesis using not_losing_terminal[OF cf(1) wp] by blast
  next
    case False
    with win_state_total[OF cf(1), of gs_ai] have wa: "determine_win_state b1 gs_ai = Inr False"
      by auto
    from rest False obtain cells1 where c1: "determine_possible_positions b1 = Inr cells1"
      "safe_replies replies cells1 b1" by blast
    note pib = positions_in_board[OF cf(1) c1(1)]
    show ?thesis
    proof (cases "cells1 = []")
      case True
      with pib(2) have "empty_count b1 = 0" by simp
      then show ?thesis using not_losing_terminal[OF cf(1) wp] by blast
    next
      case ne: False
      have "\<forall>c \<in> set cells1. c \<in> set board_cells \<and> get_cell b1 (fst c) (snd c) = Inr gs_empty"
        using pib(1) positions_empty[OF c1(1)] by auto
      from "1.IH"[OF cells b1 False c1(1) c1(2) cf(1) wp wa this]
      show ?thesis by (rule not_losing_player[OF cf(1) wp wa c1(1) ne])
    qed
  qed
  from not_losing_ai[OF "1.prems"(2,3,4) cells xy b1 this] show ?case .
next
  case (2 b1)
  then show ?case by simp
next
  case (3 pl pls x y cells b1)
  from "3.prems"(1) obtain b2 where b2: "set_cell b1 x y gs_player = Inr b2"
    and wp: "determine_win_state b2 gs_player = Inr False"
    and alt: "determine_possible_positions b2 = Inr [] \<or> safe pl b2"
    and tl: "safe_replies pls cells b1"
    by (auto split: sum.splits)
  from "3.prems"(5) have bc: "(x, y) \<in> set board_cells" and g: "get_cell b1 x y = Inr gs_empty"
    and rest: "\<forall>c \<in> set cells. c \<in> set board_cells \<and> get_cell b1 (fst c) (snd c) = Inr gs_empty"
    by simp_all
  from place_ok[OF "3.prems"(2) bc, of gs_player] b2 have ib: "is_board b2" by auto
  from win_state_place[OF "3.prems"(2) bc g b2, of gs_ai] "3.prems"(4)
  have wa: "determine_win_state b2 gs_ai = Inr False" by simp
  have "not_losing gs_ai b2"
  proof (cases "determine_possible_positions b2 = Inr []")
    case True
    from positions_in_board(2)[OF ib True] have "empty_count b2 = 0" by simp
    then show ?thesis using not_losing_terminal[OF ib wp] by blast
  next
    case False
    with alt have "safe pl b2" by simp
    from "3.IH"(1)[OF b2 this ib wp wa] show ?thesis .
  qed
  with b2 "3.IH"(2)[OF tl "3.prems"(2,3,4) rest] show ?case by simp
next
  case (4 c cells b1)
  then show ?case by simp
next
  case (5 pl pls b1)
  then show ?case by simp
qed

lemma plan_safe: "safe ai_plan BoardTemplate"
  by (simp add: ai_plan_def BoardTemplate_def win_state_3x3 positions_3x3_if set_cell_3x3)

lemma BoardTemplate_not_losing: "not_losing gs_ai BoardTemplate"
  using safe_sound(1)[OF plan_safe] BoardTemplate_facts by simp

lemma position_invariant:
  "position t b \<Longrightarrow>
   is_board b \<and> determine_win_state b gs_player = Inr False \<and> not_losing t b"
proof (induction rule: position.induct)
  case start
  then show ?case using BoardTemplate_facts BoardTemplate_not_losing by simp
next
  case (ai_move b cells fuel b' x y s b1)
  note w = winner_of_None[OF ai_move.hyps(2)]
  from w(3) ai_move.hyps(3) have ne: "cells \<noteq> []" by auto
  from ai_move.IH have ib: "is_board b" and nl: "not_losing gs_ai b" by simp_all
  from ai_move_keeps[OF ib w(1,2) ai_move.hyps(3) ne nl ai_move.hyps(4,5)]
  show ?case .
next
  case (player_move b cells x y b1)
  note w = winner_of_None[OF player_move.hyps(2)]
  from player_move.IH have ib: "is_board b" and nl: "not_losing gs_player b" by simp_all
  from player_move_keeps[OF ib w(1,2) player_move.hyps(3,4) nl player_move.hyps(5)]
  show ?case .
qed

section \<open>The claims\<close>

subsection \<open>The win predicate\<close>

text \<open>
  Claim C7. On every 3\<times>3 board and for every side \<open>s\<close>,
  \<open>determine_win_state\<close> returns true exactly when one of the eight lines (three rows,
  three columns, two diagonals) holds \<open>s\<close> in all three cells.
\<close>

theorem determine_win_state_lines:
  "determine_win_state [[a0,a1,a2],[b0,b1,b2],[c0,c1,c2]] s =
     Inr ((a0 = s \<and> a1 = s \<and> a2 = s) \<or> (b0 = s \<and> b1 = s \<and> b2 = s) \<or> (c0 = s \<and> c1 = s \<and> c2 = s)
        \<or> (a0 = s \<and> b0 = s \<and> c0 = s) \<or> (a1 = s \<and> b1 = s \<and> c1 = s) \<or> (a2 = s \<and> b2 = s \<and> c2 = s)
        \<or> (a0 = s \<and> b1 = s \<and> c2 = s) \<or> (c0 = s \<and> b1 = s \<and> a2 = s))"
  by (rule win_state_3x3)

subsection \<open>The legal moves\<close>

text \<open>
  Claim C8. On every 3\<times>3 board \<open>determine_possible_positions\<close> returns the
  coordinates of the empty cells, in row-major order; their number and the number of
  occupied cells add up to 9; the list is empty exactly when the board has no empty cell.
\<close>

theorem determine_possible_positions_row_major:
  "\<exists>ps. determine_possible_positions [[a0,a1,a2],[b0,b1,b2],[c0,c1,c2]] = Inr ps
     \<and> ps = map fst (filter (\<lambda>(c, v). v = gs_empty)
                 (zip board_cells (concat [[a0,a1,a2],[b0,b1,b2],[c0,c1,c2]])))
     \<and> length ps + occupied_count [[a0,a1,a2],[b0,b1,b2],[c0,c1,c2]] = 9
     \<and> (ps = [] \<longleftrightarrow> gs_empty \<notin> set (concat [[a0,a1,a2],[b0,b1,b2],[c0,c1,c2]]))"
proof -
  let ?B = "[[a0,a1,a2],[b0,b1,b2],[c0,c1,c2]]"
  have len: "length board_cells = length (concat ?B)"
    by (simp add: board_cells_def)
  have "length (concat ?B) = 9" by simp
  with positions_facts[OF len] positions_3x3[of a0 a1 a2 b0 b1 b2 c0 c1 c2]
  show ?thesis by metis
qed

subsection \<open>The depth of the search\<close>


subsection \<open>A board without an empty cell\<close>

text \<open>
  Claim C1 says that on a board with no empty cell and with a depth greater than 0 the
  search returns the score 0. On the drawn board below, with depth 1 for the AI, the loop
  runs over no move and the search returns the initial best, whose score is
  \<^verbatim>\<open>-math.inf\<close>.
\<close>

theorem full_board_counterexample:
  "min_max 1 drawn_board 1 gs_ai = Some (Inr (drawn_board, (-1, -1, NegInf)))
   \<and> min_max 1 drawn_board 1 gs_ai \<noteq> Some (Inr (drawn_board, (-1, -1, Fin 0)))"
  by (simp add: drawn_board_def eval_rules)

text \<open>
  Claim C1, amended. On a 3\<times>3 board with no empty cell and with a depth greater than 0 the
  search returns at once (one call is enough) with the move \<open>(-1, -1)\<close>; the score is the
  evaluation of the board (+1 or -1) when a side has a line, and otherwise the initial
  best score: \<^verbatim>\<open>-math.inf\<close> for the AI, \<^verbatim>\<open>+math.inf\<close> for any other player.
\<close>

theorem min_max_full_board:
  assumes "is_board b" "gs_empty \<notin> set (concat b)" "0 < depth"
  shows "\<exists>wp wa v. determine_win_state b gs_player = Inr wp
      \<and> determine_win_state b gs_ai = Inr wa \<and> evaluate b = Inr v
      \<and> min_max (Suc fuel) b depth p =
          Some (Inr (b, (-1, -1, if wp \<or> wa then Fin v else if p = gs_ai then NegInf else PosInf)))"
  using assms by (rule min_max_no_moves)

theorem min_max_full_board_witness:
  "is_board drawn_board \<and> gs_empty \<notin> set (concat drawn_board) \<and> (0 :: int) < 1
   \<and> (\<exists>wp wa v. determine_win_state drawn_board gs_player = Inr wp
      \<and> determine_win_state drawn_board gs_ai = Inr wa \<and> evaluate drawn_board = Inr v
      \<and> min_max (Suc 0) drawn_board 1 gs_player =
          Some (Inr (drawn_board,
             (-1, -1, if wp \<or> wa then Fin v else if gs_player = gs_ai then NegInf else PosInf))))"
proof -
  have h: "is_board drawn_board" "gs_empty \<notin> set (concat drawn_board)" "(0 :: int) < 1"
    by (simp_all add: drawn_board_def)
  from min_max_full_board[OF h, of 0 gs_player] h show ?thesis
    by blast
qed

subsection \<open>The blocking move\<close>

lemma blocking_eval:
  "min_max (Suc (Suc (Suc (Suc (Suc (Suc (Suc 0))))))) blocking_board 9 gs_ai
   = Some (Inr (blocking_board, (0, 2, Fin (-1))))"
  by (simp add: blocking_board_def eval_rules)

text \<open>
  Claim C2. On the board \<open>[[player, player, empty], [empty, ai, empty], [empty, empty,
  empty]]\<close> the search with depth 9 for the AI returns the move \<open>(0, 2)\<close> (seven nested
  calls are enough), and on the board with the AI placed there the player has no line.
  The score returned with the move is -1.
\<close>

theorem min_max_blocks_line:
  "min_max (7 + k) blocking_board 9 gs_ai = Some (Inr (blocking_board, (0, 2, Fin (-1))))
   \<and> set_cell blocking_board 0 2 gs_ai
     = Inr [[gs_player, gs_player, gs_ai], [gs_empty, gs_ai, gs_empty], [gs_empty, gs_empty, gs_empty]]
   \<and> determine_win_state
        [[gs_player, gs_player, gs_ai], [gs_empty, gs_ai, gs_empty], [gs_empty, gs_empty, gs_empty]]
        gs_player = Inr False"
proof -
  have "set_cell blocking_board 0 2 gs_ai
     = Inr [[gs_player, gs_player, gs_ai], [gs_empty, gs_ai, gs_empty], [gs_empty, gs_empty, gs_empty]]"
    by (simp add: blocking_board_def set_cell_3x3)
  moreover have "determine_win_state
        [[gs_player, gs_player, gs_ai], [gs_empty, gs_ai, gs_empty], [gs_empty, gs_empty, gs_empty]]
        gs_player = Inr False"
    by (simp add: win_state_3x3)
  ultimately show ?thesis
    using min_max_fuel_add[OF blocking_eval, of k] by (simp add: eval_nat_numeral)
qed

subsection \<open>Ties\<close>

text \<open>
  Claim C3 says that among the moves with the extremal score the first one in row-major
  order is returned. On the board below two cells are empty and the depth is 3: both
  moves have the score \<^verbatim>\<open>-math.inf\<close>, which is not greater than the initial best, and
  the search returns the move \<open>(-1, -1)\<close>.
\<close>

theorem tie_break_counterexample:
  "min_max 4 two_left_board 3 gs_ai = Some (Inr (two_left_board, (-1, -1, NegInf)))
   \<and> determine_possible_positions two_left_board = Inr [(0, 0), (0, 1)]
   \<and> child_score 3 two_left_board 3 gs_ai (0, 0) = Some NegInf
   \<and> child_score 3 two_left_board 3 gs_ai (0, 1) = Some NegInf"
  using two_left_eval(2,3,4) two_left_facts(5) by (simp add: eval_nat_numeral)

text \<open>
  Claim C3, amended. On a 3\<times>3 board that no side has won, with a depth other than 0 and
  for the AI or the player, the search returns a score that no move improves on. When
  that score is the initial best score, the returned move is \<open>(-1, -1)\<close>; otherwise the
  returned move is the first legal move in row-major order whose score is the returned
  one. On the empty board with depth 1 for the AI the returned move is \<open>(0, 0)\<close>.
\<close>

theorem min_max_first_extremal:
  "(is_board b \<and> p \<noteq> gs_empty \<and> empty_count b \<le> fuel
      \<and> determine_win_state b gs_player = Inr False \<and> determine_win_state b gs_ai = Inr False
      \<and> d \<noteq> 0 \<and> determine_possible_positions b = Inr cells
    \<longrightarrow> (\<exists>x y s. min_max (Suc fuel) b d p = Some (Inr (b, (x, y, s)))
     \<and> (\<forall>c \<in> set cells. \<exists>t. child_score fuel b d p c = Some t \<and> \<not> better p t s)
     \<and> (if s = snd (snd (initial_best p)) then (x, y) = (-1, -1)
         else \<exists>k<length cells. cells ! k = (x, y) \<and> child_score fuel b d p (x, y) = Some s
                \<and> (\<forall>j<k. child_score fuel b d p (cells ! j) \<noteq> Some s))))
   \<and> min_max (Suc (Suc k)) BoardTemplate 1 gs_ai = Some (Inr (BoardTemplate, (0, 0, Fin 0)))"
proof -
  have "min_max (Suc (Suc 0)) BoardTemplate 1 gs_ai = Some (Inr (BoardTemplate, (0, 0, Fin 0)))"
    by (simp add: BoardTemplate_def eval_rules)
  from min_max_fuel_add[OF this, of k]
  have "min_max (Suc (Suc k)) BoardTemplate 1 gs_ai = Some (Inr (BoardTemplate, (0, 0, Fin 0)))"
    by simp
  moreover have "\<exists>x y s. min_max (Suc fuel) b d p = Some (Inr (b, (x, y, s)))
     \<and> (\<forall>c \<in> set cells. \<exists>t. child_score fuel b d p c = Some t \<and> \<not> better p t s)
     \<and> (if s = snd (snd (initial_best p)) then (x, y) = (-1, -1)
         else \<exists>k<length cells. cells ! k = (x, y) \<and> child_score fuel b d p (x, y) = Some s
                \<and> (\<forall>j<k. child_score fuel b d p (cells ! j) \<noteq> Some s))"
    if "is_board b \<and> p \<noteq> gs_empty \<and> empty_count b \<le> fuel
      \<and> determine_win_state b gs_player = Inr False \<and> determine_win_state b gs_ai = Inr False
      \<and> d \<noteq> 0 \<and> determine_possible_positions b = Inr cells"
    using that by (intro min_max_characterised) simp_all
  ultimately show ?thesis by (intro conjI impI)
qed

theorem min_max_first_extremal_witness:
  "is_board two_left_board \<and> gs_ai \<noteq> gs_empty \<and> empty_count two_left_board \<le> 2
   \<and> determine_win_state two_left_board gs_player = Inr False
   \<and> determine_win_state two_left_board gs_ai = Inr False
   \<and> (2 :: int) \<noteq> 0 \<and> determine_possible_positions two_left_board = Inr [(0, 0), (0, 1)]
   \<and> (\<exists>x y s. min_max (Suc 2) two_left_board 2 gs_ai = Some (Inr (two_left_board, (x, y, s)))
     \<and> (\<forall>c \<in> set [(0, 0), (0, 1)].
           \<exists>t. child_score 2 two_left_board 2 gs_ai c = Some t \<and> \<not> better gs_ai t s)
     \<and> (if s = snd (snd (initial_best gs_ai)) then (x, y) = (-1, -1)
         else \<exists>k<length [(0 :: int, 0 :: int), (0, 1)]. [(0, 0), (0, 1)] ! k = (x, y)
                \<and> child_score 2 two_left_board 2 gs_ai (x, y) = Some s
                \<and> (\<forall>j<k. child_score 2 two_left_board 2 gs_ai ([(0, 0), (0, 1)] ! j) \<noteq> Some s)))"
proof -
  have h: "is_board two_left_board \<and> gs_ai \<noteq> gs_empty \<and> empty_count two_left_board \<le> 2
   \<and> determine_win_state two_left_board gs_player = Inr False
   \<and> determine_win_state two_left_board gs_ai = Inr False
   \<and> (2 :: int) \<noteq> 0 \<and> determine_possible_positions two_left_board = Inr [(0, 0), (0, 1)]"
    using two_left_facts by simp
  from min_max_first_extremal[of two_left_board gs_ai 2 2 "[(0, 0), (0, 1)]" 0] h
  show ?thesis by blast
qed

subsection \<open>The depth at entry\<close>

text \<open>
  Claim C4 says that a depth below 0 is treated like the depth 0. On the board below one
  cell is empty and no side has a line, so the evaluation is 0; with depth -1 the search
  tries the move, finds a line of the AI and returns the move \<open>(0, 2)\<close> with score 1.
\<close>

theorem negative_depth_counterexample:
  "min_max 2 one_left_board (-1) gs_ai = Some (Inr (one_left_board, (0, 2, Fin 1)))
   \<and> evaluate one_left_board = Inr 0"
  by (simp add: one_left_board_def eval_rules eval_nat_numeral)

text \<open>
  Claim C4, amended. With depth 0 the search returns, without a nested call, the move
  \<open>(-1, -1)\<close> with the evaluation of the board (or the error of the evaluation), for
  every board and player; on a 3\<times>3 board the evaluation is -1, 0 or 1. A negative depth
  is not a cutoff.
\<close>

theorem min_max_depth_zero:
  "min_max (Suc fuel) b 0 p =
     (case evaluate b of Inl e \<Rightarrow> Some (Inl e) | Inr v \<Rightarrow> Some (Inr (b, (-1, -1, Fin v))))
   \<and> (\<exists>v. evaluate [[a0,a1,a2],[b0,b1,b2],[c0,c1,c2]] = Inr v \<and> v \<in> {-1, 0, 1}
        \<and> min_max (Suc fuel) [[a0,a1,a2],[b0,b1,b2],[c0,c1,c2]] 0 p =
            Some (Inr ([[a0,a1,a2],[b0,b1,b2],[c0,c1,c2]], (-1, -1, Fin v))))"
proof -
  have "is_board [[a0,a1,a2],[b0,b1,b2],[c0,c1,c2]]" by simp
  from evaluate_total[OF this] show ?thesis
    by (auto simp: min_max_cutoff)
qed

subsection \<open>The board after the search\<close>

text \<open>
  Claim C5. When the search returns a result, the board is the board at entry, so a
  second call with the same arguments returns the same result; and on a 3\<times>3 board, for
  the AI or the player, with more nested calls allowed than there are empty cells, the
  search does return a result, for every depth.
\<close>

theorem min_max_restores_board:
  "(min_max fuel b d p = Some (Inr (b', r)) \<longrightarrow> b' = b \<and> min_max fuel b' d p = Some (Inr (b', r)))
   \<and> (is_board b \<and> p \<noteq> gs_empty \<and> empty_count b < fuel
        \<longrightarrow> (\<exists>r. min_max fuel b d p = Some (Inr (b, r))))"
  using min_max_frame[of fuel b d p b' r] min_max_returns[of b p fuel d] by auto

theorem min_max_restores_board_witness:
  "min_max 3 two_left_board 2 gs_ai = Some (Inr (two_left_board, (0, 0, Fin 0)))
   \<and> is_board two_left_board \<and> gs_ai \<noteq> gs_empty \<and> empty_count two_left_board < 3
   \<and> (two_left_board = two_left_board
        \<and> min_max 3 two_left_board 2 gs_ai = Some (Inr (two_left_board, (0, 0, Fin 0))))
   \<and> (\<exists>r. min_max 3 two_left_board 2 gs_ai = Some (Inr (two_left_board, r)))"
proof -
  have e: "min_max 3 two_left_board 2 gs_ai = Some (Inr (two_left_board, (0, 0, Fin 0)))"
    using two_left_eval(1) by (simp add: eval_nat_numeral)
  have h: "is_board two_left_board \<and> gs_ai \<noteq> gs_empty \<and> empty_count two_left_board < 3"
    using two_left_facts by simp
  from min_max_restores_board[of 3 two_left_board 2 gs_ai two_left_board "(0, 0, Fin 0)"] e h
  show ?thesis by blast
qed

subsection \<open>The returned move is legal\<close>

text \<open>
  Claim C10. On a 3\<times>3 board that no side has won, with a depth from 1 to the number of
  empty cells (and more nested calls allowed than the depth), the search returns a move
  that is one of the nine cells, not \<open>(-1, -1)\<close>, and empty on the board, with a score
  among -1, 0 and 1; the write of the caller at that move succeeds.
\<close>

theorem min_max_legal_move:
  assumes "is_board b"
    "determine_win_state b gs_player = Inr False" "determine_win_state b gs_ai = Inr False"
    "1 \<le> d" "d \<le> int (empty_count b)" "nat d < fuel"
  shows "\<exists>x y s. min_max fuel b d p = Some (Inr (b, (x, y, Fin s)))
     \<and> s \<in> {-1, 0, 1} \<and> (x, y) \<in> set board_cells \<and> (x, y) \<noteq> (-1, -1)
     \<and> get_cell b x y = Inr gs_empty
     \<and> (\<exists>b1. set_cell b x y gs_ai = Inr b1 \<and> is_board b1)"
proof -
  from assms(4) have "0 \<le> d" "d \<noteq> 0" by simp_all
  from min_max_bounded[OF assms(1) this(1) assms(5,6), of p] this(2) assms(2,3)
  obtain x y s where r: "min_max fuel b d p = Some (Inr (b, (x, y, Fin s)))" "s \<in> {-1, 0, 1}"
    "(x, y) \<in> set board_cells" "get_cell b x y = Inr gs_empty" by blast
  from r(3) have "(x, y) \<noteq> (-1, -1)" by (auto simp: board_cells_def)
  moreover from place_ok[OF assms(1) r(3), of gs_ai]
  have "\<exists>b1. set_cell b x y gs_ai = Inr b1 \<and> is_board b1" by blast
  ultimately show ?thesis using r by blast
qed

theorem min_max_legal_move_witness:
  "is_board two_left_board
   \<and> determine_win_state two_left_board gs_player = Inr False
   \<and> determine_win_state two_left_board gs_ai = Inr False
   \<and> (1 :: int) \<le> 2 \<and> (2 :: int) \<le> int (empty_count two_left_board) \<and> nat 2 < (3 :: nat)
   \<and> (\<exists>x y s. min_max 3 two_left_board 2 gs_ai = Some (Inr (two_left_board, (x, y, Fin s)))
     \<and> s \<in> {-1, 0, 1} \<and> (x, y) \<in> set board_cells \<and> (x, y) \<noteq> (-1, -1)
     \<and> get_cell two_left_board x y = Inr gs_empty
     \<and> (\<exists>b1. set_cell two_left_board x y gs_ai = Inr b1 \<and> is_board b1))"
proof -
  have h: "is_board two_left_board" "determine_win_state two_left_board gs_player = Inr False"
    "determine_win_state two_left_board gs_ai = Inr False"
    "(1 :: int) \<le> 2" "(2 :: int) \<le> int (empty_count two_left_board)" "nat 2 < (3 :: nat)"
    using two_left_facts by simp_all
  from min_max_legal_move[OF h, of gs_ai] h show ?thesis by blast
qed

subsection \<open>The AI does not lose\<close>

text \<open>
  Claim C6. In every game that starts on the empty board, in which the AI plays the move
  returned by the search at the depth of the number of empty cells and the player answers
  with any legal moves, no board has a line of the player: the winner computed from the
  board is never the player, so the game ends in a draw or a win of the AI. Whenever it
  is the turn of the AI and the game goes on, the search does return a move that the AI
  can play.
\<close>

theorem min_max_never_loses:
  "position t b \<Longrightarrow>
   determine_win_state b gs_player = Inr False
   \<and> (\<exists>w. winner_of b = Inr w \<and> w \<noteq> Some Author)
   \<and> (t = gs_ai \<and> winner_of b = Inr None \<longrightarrow>
        (\<exists>cells x y s b1. determine_possible_positions b = Inr cells
           \<and> min_max (Suc (length cells)) b (int (length cells)) gs_ai = Some (Inr (b, (x, y, s)))
           \<and> set_cell b x y gs_ai = Inr b1 \<and> position gs_player b1))"
proof -
  assume p: "position t b"
  from position_invariant[OF p] have ib: "is_board b"
    and wp: "determine_win_state b gs_player = Inr False" by simp_all
  obtain wa cells where wa: "determine_win_state b gs_ai = Inr wa"
    and cells: "determine_possible_positions b = Inr cells"
    using win_state_total[OF ib] positions_total[OF ib] by blast
  have w: "\<exists>w. winner_of b = Inr w \<and> w \<noteq> Some Author"
    by (simp add: winner_of_def ebind_def wp wa cells)
  have "\<exists>cells x y s b1. determine_possible_positions b = Inr cells
           \<and> min_max (Suc (length cells)) b (int (length cells)) gs_ai = Some (Inr (b, (x, y, s)))
           \<and> set_cell b x y gs_ai = Inr b1 \<and> position gs_player b1"
    if t: "t = gs_ai" and go: "winner_of b = Inr None"
  proof -
    note open_board = winner_of_None[OF go]
    from open_board(3) cells have ne: "cells \<noteq> []" by auto
    have n: "length cells = empty_count b" using positions_in_board(2)[OF ib cells] .
    from ne n have d: "1 \<le> int (length cells)" "int (length cells) \<le> int (empty_count b)"
      "nat (int (length cells)) < Suc (length cells)"
      by (cases cells; simp)+
    from min_max_bounded[OF ib _ d(2,3), of gs_ai] d(1) open_board(1,2)
    obtain x y s where r: "min_max (Suc (length cells)) b (int (length cells)) gs_ai
        = Some (Inr (b, (x, y, Fin s)))" and xy: "(x, y) \<in> set board_cells" by auto
    from place_ok[OF ib xy, of gs_ai] obtain b1 where b1: "set_cell b x y gs_ai = Inr b1"
      by blast
    from position.ai_move[OF p[unfolded t] go cells r b1] cells r b1 show ?thesis by blast
  qed
  with wp w show ?thesis by blast
qed

theorem min_max_never_loses_witness:
  "position gs_ai BoardTemplate
   \<and> determine_win_state BoardTemplate gs_player = Inr False
   \<and> (\<exists>w. winner_of BoardTemplate = Inr w \<and> w \<noteq> Some Author)
   \<and> winner_of BoardTemplate = Inr None
   \<and> (\<exists>cells x y s b1. determine_possible_positions BoardTemplate = Inr cells
        \<and> min_max (Suc (length cells)) BoardTemplate (int (length cells)) gs_ai
             = Some (Inr (BoardTemplate, (x, y, s)))
        \<and> set_cell BoardTemplate x y gs_ai = Inr b1 \<and> position gs_player b1)"
proof -
  have go: "winner_of BoardTemplate = Inr None"
    by (simp add: winner_of_def ebind_def BoardTemplate_facts board_cells_def)
  from min_max_never_loses[OF position.start] go position.start show ?thesis
    by blast
qed

end
